theory Spec2Isabelle
  imports Main "HOL-Library.AList"
begin

section \<open>Cache relocation: the data of \<open>moveCacheFiles\<close>\<close>

text \<open>
  The cache documents are parsed JSON. The relocation code looks at an array element only
  through \<open>typeof x === 'string'\<close>, so an element is a string or some other JSON scalar.
  A JavaScript string is a sequence of code units; \<open>startsWith\<close>, \<open>substring\<close> and
  \<open>length\<close> all count code units, which the model reads as the characters of a
  \<open>string\<close>.
\<close>

datatype jsval = JNull | JBool bool | JNum int | JStr string

text \<open>\<open>Graph\<close> and \<open>FileInfo\<close>, \<open>Program\<close>, \<open>BuildInfo\<close> of the type declarations.
  An object is an association list in the enumeration order of \<open>Object.keys\<close>; a
  property value that JavaScript reads as \<open>undefined\<close> is \<open>None\<close>. The optional
  arrays \<open>fileNames\<close> and \<open>semanticDiagnosticsPerFile\<close> are \<open>None\<close> when absent.\<close>

record graph =
  deps :: "jsval list"
  version_hash :: string

record fileInfo =
  version :: string
  signature :: string
  affectsGlobalScope :: bool

record program =
  fileNames :: "jsval list option"
  fileInfos :: "(string \<times> fileInfo option) list"
  referencedMap :: "(string \<times> jsval list) list"
  exportedModulesMap :: "(string \<times> jsval list) list"
  semanticDiagnosticsPerFile :: "jsval list option"

record buildInfo =
  program :: program
  bi_version :: string

text \<open>The two variables every loop of \<open>moveCacheFiles\<close> updates: the optional set
  \<open>sourceFiles\<close> (\<open>None\<close> when the caller passed none, so that \<open>sourceFiles?.add\<close> does
  nothing) and the flag \<open>needsWrite\<close>.\<close>

type_synonym pass = "string set option \<times> bool"

subsection \<open>String primitives\<close>

definition workPathUri :: "string \<Rightarrow> string" where
  "workPathUri oldPath = ''file://'' @ oldPath"

definition startsWith :: "string \<Rightarrow> string \<Rightarrow> bool" where
  "startsWith s p = (take (length p) s = p)"

definition substring :: "string \<Rightarrow> nat \<Rightarrow> string" where
  "substring s n = drop n s"

text \<open>\<open>dep.substring(workPathUri.length + 1)\<close> and
  \<open>`file://${newPath}/${relative}`\<close>, the two expressions each of the seven rewriting
  sites evaluates.\<close>

definition relativeOf :: "string \<Rightarrow> string \<Rightarrow> string" where
  "relativeOf uri dep = substring dep (length uri + 1)"

definition updatedOf :: "string \<Rightarrow> string \<Rightarrow> string" where
  "updatedOf newPath rel = ''file://'' @ newPath @ ''/'' @ rel"

subsection \<open>The array loop\<close>

text \<open>
  \<open>for (let i = 0; i < arr.length; i++)\<close> with the body shared by \<open>graph.deps\<close>, the
  value arrays of \<open>referencedMap\<close> and \<open>exportedModulesMap\<close>, \<open>fileNames\<close> and
  \<open>semanticDiagnosticsPerFile\<close>: the element is overwritten in place, its suffix is
  added to \<open>sourceFiles\<close>, and \<open>needsWrite\<close> is set.
\<close>

function patchArray :: "string \<Rightarrow> string \<Rightarrow> nat \<Rightarrow> jsval list \<Rightarrow> pass \<Rightarrow> jsval list \<times> pass" where
  "patchArray uri newPath i arr (sf, nw) =
     (if i < length arr then
        (case arr ! i of
           JStr dep \<Rightarrow>
             if startsWith dep uri then
               patchArray uri newPath (i + 1)
                 (arr[i := JStr (updatedOf newPath (relativeOf uri dep))])
                 (map_option (insert (relativeOf uri dep)) sf, True)
             else patchArray uri newPath (i + 1) arr (sf, nw)
         | _ \<Rightarrow> patchArray uri newPath (i + 1) arr (sf, nw))
      else (arr, (sf, nw)))"
  by pat_completeness auto
termination
  by (relation "measure (\<lambda>(uri, newPath, i, arr, p). length arr - i)") auto

subsection \<open>The graph pass\<close>

definition relocateGraph :: "string \<Rightarrow> string \<Rightarrow> graph \<Rightarrow> string set option \<Rightarrow> graph \<times> pass" where
  "relocateGraph oldPath newPath g sf =
     (case patchArray (workPathUri oldPath) newPath 0 (deps g) (sf, False) of
        (arr, p) \<Rightarrow> (g\<lparr>deps := arr\<rparr>, p))"

subsection \<open>Key-only map: \<open>fileInfos\<close>\<close>

text \<open>
  \<open>obj[k]\<close> on an object whose values may be \<open>undefined\<close>: an absent property reads
  as \<open>undefined\<close>. \<open>obj[k] = v\<close> is \<open>AList.update\<close> (an existing property keeps its
  place, a new one goes last; every key written here starts with \<open>file://\<close>, so it is
  never an array index, which JavaScript would enumerate first), and \<open>delete obj[k]\<close> is
  \<open>AList.delete\<close>.
\<close>

definition js_get :: "(string \<times> 'v option) list \<Rightarrow> string \<Rightarrow> 'v option" where
  "js_get obj k = (case map_of obj k of Some v \<Rightarrow> v | None \<Rightarrow> None)"

text \<open>\<open>for (const filename of Object.keys(fileInfos))\<close>: the keys are a snapshot taken
  before the loop, the object changes under it.\<close>

fun patchKeys :: "string \<Rightarrow> string \<Rightarrow> string list \<Rightarrow> (string \<times> 'v option) list \<Rightarrow> pass
    \<Rightarrow> (string \<times> 'v option) list \<times> pass" where
  "patchKeys uri newPath [] obj p = (obj, p)"
| "patchKeys uri newPath (filename # ks) obj (sf, nw) =
     (if startsWith filename uri then
        patchKeys uri newPath ks
          (AList.delete filename
             (AList.update (updatedOf newPath (relativeOf uri filename)) (js_get obj filename) obj))
          (map_option (insert (relativeOf uri filename)) sf, True)
      else patchKeys uri newPath ks obj (sf, nw))"

subsection \<open>Key+list maps: \<open>referencedMap\<close> and \<open>exportedModulesMap\<close>\<close>

text \<open>
  \<open>Object.entries\<close> snapshots pairs of a key and a reference to its array; the loop
  mutates the array through the reference and stores the same reference under the new
  key. The arrays therefore live in a store (a list indexed by reference) and the object
  maps keys to references. \<open>JSON.parse\<close> allocates one fresh array per property
  (\<open>alloc\<close>); \<open>deref\<close> reads the object back with the arrays' final contents.
  Every reference \<open>alloc\<close> hands out is an index of the store, and the loop writes
  no other.
\<close>

fun patchRefs :: "string \<Rightarrow> string \<Rightarrow> (string \<times> nat) list \<Rightarrow> (string \<times> nat) list \<Rightarrow> jsval list list
    \<Rightarrow> pass \<Rightarrow> (string \<times> nat) list \<times> jsval list list \<times> pass" where
  "patchRefs uri newPath [] obj heap p = (obj, heap, p)"
| "patchRefs uri newPath ((filename, r) # es) obj heap p =
     (case patchArray uri newPath 0 (heap ! r) p of
        (refs, (sf, nw)) \<Rightarrow>
          if startsWith filename uri then
            patchRefs uri newPath es
              (AList.delete filename
                 (AList.update (updatedOf newPath (relativeOf uri filename)) r obj))
              (heap[r := refs])
              (map_option (insert (relativeOf uri filename)) sf, True)
          else patchRefs uri newPath es obj (heap[r := refs]) (sf, nw))"

definition alloc :: "(string \<times> jsval list) list \<Rightarrow> (string \<times> nat) list \<times> jsval list list" where
  "alloc al = (zip (map fst al) [0..<length al], map snd al)"

definition deref :: "(string \<times> nat) list \<Rightarrow> jsval list list \<Rightarrow> (string \<times> jsval list) list" where
  "deref obj heap = map (\<lambda>(k, r). (k, heap ! r)) obj"

definition patchMap :: "string \<Rightarrow> string \<Rightarrow> (string \<times> jsval list) list \<Rightarrow> pass
    \<Rightarrow> (string \<times> jsval list) list \<times> pass" where
  "patchMap uri newPath al p =
     (case alloc al of
        (obj, heap) \<Rightarrow>
          (case patchRefs uri newPath obj obj heap p of
             (obj', heap', p') \<Rightarrow> (deref obj' heap', p')))"

subsection \<open>Flat lists: \<open>fileNames\<close> and \<open>semanticDiagnosticsPerFile\<close>\<close>

text \<open>The destructuring default \<open>= []\<close> gives an absent array a fresh empty one, over
  which the loop does nothing; the document keeps the property absent.\<close>

definition patchOptArray :: "string \<Rightarrow> string \<Rightarrow> jsval list option \<Rightarrow> pass \<Rightarrow> jsval list option \<times> pass" where
  "patchOptArray uri newPath arr p =
     (case arr of
        None \<Rightarrow> (None, p)
      | Some a \<Rightarrow> (case patchArray uri newPath 0 a p of (a', p') \<Rightarrow> (Some a', p')))"

subsection \<open>The build-info pass\<close>

definition relocateBuildInfo :: "string \<Rightarrow> string \<Rightarrow> buildInfo \<Rightarrow> string set option \<Rightarrow> buildInfo \<times> pass" where
  "relocateBuildInfo oldPath newPath bi sf =
     (let uri = workPathUri oldPath; prog = program bi in
      case patchKeys uri newPath (map fst (fileInfos prog)) (fileInfos prog) (sf, False) of
        (fi, p1) \<Rightarrow>
      case patchMap uri newPath (referencedMap prog) p1 of
        (rm, p2) \<Rightarrow>
      case patchMap uri newPath (exportedModulesMap prog) p2 of
        (em, p3) \<Rightarrow>
      case patchOptArray uri newPath (fileNames prog) p3 of
        (fns, p4) \<Rightarrow>
      case patchOptArray uri newPath (semanticDiagnosticsPerFile prog) p4 of
        (sd, p5) \<Rightarrow>
          (bi\<lparr>program := prog\<lparr>fileNames := fns, fileInfos := fi, referencedMap := rm,
                                exportedModulesMap := em, semanticDiagnosticsPerFile := sd\<rparr>\<rparr>,
           p5))"

subsection \<open>Reading, patching and writing one cache file\<close>

text \<open>
  \<open>JSON.parse(await readFile(file, 'utf8'))\<close> and \<open>JSON.stringify(doc, null, 2)\<close> are
  parameters; a parse that throws aborts \<open>moveCacheFiles\<close>. The result is the argument
  of \<open>writeFile\<close> when it is called (\<open>None\<close> when it is not) and the updated
  \<open>sourceFiles\<close>.
\<close>

datatype jserror = SyntaxError

definition patchGraphFile :: "('b \<Rightarrow> graph option) \<Rightarrow> (graph \<Rightarrow> 'b) \<Rightarrow> string \<Rightarrow> string \<Rightarrow> 'b
    \<Rightarrow> string set option \<Rightarrow> jserror + ('b option \<times> string set option)" where
  "patchGraphFile parse stringify oldPath newPath content sf =
     (case parse content of
        None \<Rightarrow> Inl SyntaxError
      | Some g \<Rightarrow>
          (case relocateGraph oldPath newPath g sf of
             (g', (sf', needsWrite)) \<Rightarrow>
               Inr (if needsWrite then Some (stringify g') else None, sf')))"

definition patchBuildInfoFile :: "('b \<Rightarrow> buildInfo option) \<Rightarrow> (buildInfo \<Rightarrow> 'b) \<Rightarrow> string \<Rightarrow> string \<Rightarrow> 'b
    \<Rightarrow> string set option \<Rightarrow> jserror + ('b option \<times> string set option)" where
  "patchBuildInfoFile parse stringify oldPath newPath content sf =
     (case parse content of
        None \<Rightarrow> Inl SyntaxError
      | Some bi \<Rightarrow>
          (case relocateBuildInfo oldPath newPath bi sf of
             (bi', (sf', needsWrite)) \<Rightarrow>
               Inr (if needsWrite then Some (stringify bi') else None, sf')))"

text \<open>The bytes of the file after the pass.\<close>

definition fileAfter :: "'b \<Rightarrow> 'b option \<Rightarrow> 'b" where
  "fileAfter content w = (case w of None \<Rightarrow> content | Some d \<Rightarrow> d)"

subsection \<open>What the claims say of one element\<close>

text \<open>The element-wise rewrite the specification describes, to compare the loops with.\<close>

definition matchesVal :: "string \<Rightarrow> jsval \<Rightarrow> bool" where
  "matchesVal uri v = (case v of JStr dep \<Rightarrow> startsWith dep uri | _ \<Rightarrow> False)"

definition rewriteVal :: "string \<Rightarrow> string \<Rightarrow> jsval \<Rightarrow> jsval" where
  "rewriteVal uri newPath v =
     (case v of
        JStr dep \<Rightarrow>
          if startsWith dep uri then JStr (''file://'' @ newPath @ ''/'' @ drop (length uri + 1) dep)
          else v
      | _ \<Rightarrow> v)"

definition relativesOf :: "string \<Rightarrow> jsval list \<Rightarrow> string list" where
  "relativesOf uri arr =
     concat (map (\<lambda>v. case v of
                        JStr dep \<Rightarrow> if startsWith dep uri then [drop (length uri + 1) dep] else []
                      | _ \<Rightarrow> []) arr)"


text \<open>The key steps of the two kinds of map, as operations on the object alone.\<close>

definition renameKey :: "string \<Rightarrow> string \<Rightarrow> (string \<times> 'v option) list \<Rightarrow> string \<Rightarrow> (string \<times> 'v option) list" where
  "renameKey uri newPath obj k =
     (if startsWith k uri then
        AList.delete k (AList.update (updatedOf newPath (relativeOf uri k)) (js_get obj k) obj)
      else obj)"

definition rekey :: "string \<Rightarrow> string \<Rightarrow> (string \<times> nat) list \<Rightarrow> string \<times> nat \<Rightarrow> (string \<times> nat) list" where
  "rekey uri newPath obj e =
     (if startsWith (fst e) uri then
        AList.delete (fst e) (AList.update (updatedOf newPath (relativeOf uri (fst e))) (snd e) obj)
      else obj)"

definition relatives :: "string \<Rightarrow> string list \<Rightarrow> string list" where
  "relatives uri ks = map (relativeOf uri) (filter (\<lambda>k. startsWith k uri) ks)"

text \<open>The strings of a document: those the pass examines (keys and array elements), and all of
  them.\<close>

definition stringsOf :: "jsval list \<Rightarrow> string list" where
  "stringsOf vs = concat (map (\<lambda>v. case v of JStr s \<Rightarrow> [s] | _ \<Rightarrow> []) vs)"

definition optArray :: "jsval list option \<Rightarrow> jsval list" where
  "optArray arr = (case arr of None \<Rightarrow> [] | Some a \<Rightarrow> a)"

definition examinedStrings :: "program \<Rightarrow> string list" where
  "examinedStrings prog =
     map fst (fileInfos prog)
     @ map fst (referencedMap prog) @ concat (map (\<lambda>e. stringsOf (snd e)) (referencedMap prog))
     @ map fst (exportedModulesMap prog) @ concat (map (\<lambda>e. stringsOf (snd e)) (exportedModulesMap prog))
     @ stringsOf (optArray (fileNames prog))
     @ stringsOf (optArray (semanticDiagnosticsPerFile prog))"

definition graphStrings :: "graph \<Rightarrow> string list" where
  "graphStrings g = version_hash g # stringsOf (deps g)"

definition fileInfoStrings :: "fileInfo option \<Rightarrow> string list" where
  "fileInfoStrings fi = (case fi of None \<Rightarrow> [] | Some i \<Rightarrow> [version i, signature i])"

definition buildInfoStrings :: "buildInfo \<Rightarrow> string list" where
  "buildInfoStrings bi =
     bi_version bi # concat (map (\<lambda>e. fileInfoStrings (snd e)) (fileInfos (program bi)))
     @ examinedStrings (program bi)"

section \<open>The runtime loop of \<open>bootstrap\<close>\<close>

text \<open>
  The loop talks to the control endpoint, the module loader and the handler. What they
  answer during one iteration is an \<open>exchange\<close>; the loop is run over the list of the
  exchanges to come and emits the events it causes, in order. Where the list ends the loop
  is blocked in its long-poll.
\<close>

text \<open>\<open>mod.default\<close>: a function, some other truthy value, or \<open>undefined\<close> (or another
  falsy value). The variable \<open>handler\<close> starts as \<open>null\<close>.\<close>

datatype export = Callable | TruthyNonCallable | Falsy

text \<open>
  A thrown value, as the \<open>catch\<close> block can report it or not: \<open>toLambdaErr\<close>
  destructures the value, which throws for \<open>undefined\<close> and \<open>null\<close> (and it calls
  \<open>split\<close> on a truthy \<open>stack\<close>, which throws when that is not a string); such a value
  is \<open>Unreportable\<close>. The errors the loop and the platform classes throw themselves are
  \<open>Reportable\<close>; a module, a handler or a body stream can throw either.
\<close>

datatype thrown = Reportable | Unreportable

datatype import_answer = ImportThrows thrown | Exports export

datatype handler_var = Null | Holds export

text \<open>
  The fields of an exchange, in the order the loop meets them: the status of the answer to
  \<open>GET invocation/next\<close>; its headers \<open>lambda-runtime-trace-id\<close> and
  \<open>lambda-runtime-aws-request-id\<close>; whether \<open>JSON.parse(res.body)\<close> returns; what
  \<open>import(`./${_HANDLER}`)\<close> does if it is evaluated; whether the request is decoded
  (\<open>JSON.parse(event.body)\<close>, the URL, the \<open>Request\<close>) without a throw; what the handler
  throws or rejects with, if it does; what the draining and encoding of its response
  throws, if it does; and the status of the answer to the POST of this iteration. A
  \<open>fetch\<close> that rejects is not modelled.
\<close>

record exchange =
  next_status :: nat
  next_trace_id :: "string option"
  next_request_id :: "string option"
  next_body_ok :: bool
  import_answer :: import_answer
  decode_ok :: bool
  handler_throws :: "thrown option"
  drain_throws :: "thrown option"
  post_status :: nat

datatype event =
    Poll
  | SetTrace string
  | DeleteTrace
  | Import
  | Invoke string
  | PostResponse string
  | PostError string
  | LogInvokeError
  | LogFatal
  | Exit nat
  | ImportEntrypoint

datatype loop_end = Blocked | Rejected

text \<open>\<open>nextInvocation\<close>: the long-poll, the status check, the trace-id environment
  variable, the mandatory request id, and \<open>JSON.parse(res.body)\<close>. \<open>None\<close> is a throw.\<close>

definition nextInvocation :: "exchange \<Rightarrow> event list \<times> string option" where
  "nextInvocation x =
     (if next_status x \<noteq> 200 then ([Poll], None)
      else
        (case next_request_id x of
           None \<Rightarrow> ([Poll, case next_trace_id x of Some t \<Rightarrow> SetTrace t | None \<Rightarrow> DeleteTrace], None)
         | Some awsRequestId \<Rightarrow>
             ([Poll, case next_trace_id x of Some t \<Rightarrow> SetTrace t | None \<Rightarrow> DeleteTrace],
              if next_body_ok x then Some awsRequestId else None)))"

text \<open>\<open>!handler\<close>.\<close>

definition unloaded :: "handler_var \<Rightarrow> bool" where
  "unloaded h = (h = Null \<or> h = Holds Falsy)"

text \<open>The \<open>try\<close> block: the lazy import with its \<open>typeof handler !== 'function'\<close> check,
  the decoding of the wire request, the call of the handler (a \<open>TypeError\<close> when the
  variable holds something that is not a function), the draining of the response body.
  The result is the handler variable, the events, and the value that was thrown, to be
  caught (\<open>None\<close>: \<open>result\<close> was computed).\<close>

definition callHandler :: "handler_var \<Rightarrow> exchange \<Rightarrow> string \<Rightarrow> event list \<times> thrown option" where
  "callHandler h x awsRequestId =
     (if \<not> decode_ok x then ([], Some Reportable)
      else if h \<noteq> Holds Callable then ([], Some Reportable)
      else (case handler_throws x of
              Some t \<Rightarrow> ([Invoke awsRequestId], Some t)
            | None \<Rightarrow> ([Invoke awsRequestId], drain_throws x)))"

definition tryBlock :: "handler_var \<Rightarrow> exchange \<Rightarrow> string \<Rightarrow> handler_var \<times> event list \<times> thrown option" where
  "tryBlock h x awsRequestId =
     (if unloaded h then
        (case import_answer x of
           ImportThrows t \<Rightarrow> (h, [Import], Some t)
         | Exports e \<Rightarrow>
             if e \<noteq> Callable then (Holds e, [Import], Some Reportable)
             else (case callHandler (Holds e) x awsRequestId of
                     (evs, caught) \<Rightarrow> (Holds e, Import # evs, caught)))
      else (case callHandler h x awsRequestId of (evs, caught) \<Rightarrow> (h, evs, caught)))"

text \<open>\<open>processEvents\<close>: \<open>while (true)\<close> over the exchanges. A throw of
  \<open>nextInvocation\<close> or of \<open>invokeResponse\<close> (a status other than 202) is outside the
  \<open>try\<close>; a throw of \<open>invokeError\<close> is inside the \<open>catch\<close>: that of \<open>toLambdaErr\<close> on
  a value it cannot report, before any request is made, or that of \<open>postError\<close> on a
  status other than 202. Each rejects the promise.\<close>

fun processEvents :: "handler_var \<Rightarrow> exchange list \<Rightarrow> event list \<times> handler_var \<times> loop_end" where
  "processEvents h [] = ([Poll], h, Blocked)"
| "processEvents h (x # xs) =
     (case nextInvocation x of
        (evs, None) \<Rightarrow> (evs, h, Rejected)
      | (evs, Some awsRequestId) \<Rightarrow>
          (case tryBlock h x awsRequestId of
             (h', evs', caught) \<Rightarrow>
               if caught = Some Unreportable then (evs @ evs' @ [LogInvokeError], h', Rejected)
               else
                 (let posted = (if caught = None then [PostResponse awsRequestId]
                                else [LogInvokeError, PostError awsRequestId])
                  in if post_status x \<noteq> 202 then (evs @ evs' @ posted, h', Rejected)
                     else (case processEvents h' xs of
                             (rest, h'', e) \<Rightarrow> (evs @ evs' @ posted @ rest, h'', e)))))"

text \<open>The last lines of the file: with \<open>_HANDLER\<close> set (and not empty) the loop runs, and
  a rejection is logged and ends the process with code 1; otherwise the entrypoint is
  imported to warm the cache.\<close>

definition bootstrap :: "string option \<Rightarrow> exchange list \<Rightarrow> event list" where
  "bootstrap handlerEnv xs =
     (if handlerEnv \<noteq> None \<and> handlerEnv \<noteq> Some [] then
        (case processEvents Null xs of
           (evs, h, Rejected) \<Rightarrow> evs @ [LogFatal, Exit 1]
         | (evs, h, Blocked) \<Rightarrow> evs)
      else [ImportEntrypoint])"

text \<open>Observations on a trace.\<close>

definition isPost :: "event \<Rightarrow> bool" where
  "isPost e = (case e of PostResponse i \<Rightarrow> True | PostError i \<Rightarrow> True | _ \<Rightarrow> False)"

definition postId :: "event \<Rightarrow> string" where
  "postId e = (case e of PostResponse i \<Rightarrow> i | PostError i \<Rightarrow> i | _ \<Rightarrow> [])"

definition isInvoke :: "event \<Rightarrow> bool" where
  "isInvoke e = (case e of Invoke i \<Rightarrow> True | _ \<Rightarrow> False)"

definition requestId :: "exchange \<Rightarrow> string" where
  "requestId x = (case next_request_id x of Some i \<Rightarrow> i | None \<Rightarrow> [])"

text \<open>The variable \<open>handler\<close> after an iteration, and the number of the invocations of a
  run that find it falsy.\<close>

definition handlerAfter :: "handler_var \<Rightarrow> exchange \<Rightarrow> handler_var" where
  "handlerAfter h x =
     (if unloaded h then (case import_answer x of ImportThrows t \<Rightarrow> h | Exports e \<Rightarrow> Holds e)
      else h)"

fun foundFalsy :: "handler_var \<Rightarrow> exchange list \<Rightarrow> nat" where
  "foundFalsy h [] = 0"
| "foundFalsy h (x # xs) = (if unloaded h then 1 else 0) + foundFalsy (handlerAfter h x) xs"

text \<open>
  A run with no protocol error and no error that cannot be reported: every long-poll is
  answered with status 200, the request-id header and a body that parses; no value the
  \<open>catch\<close> block receives is \<open>Unreportable\<close>; every POST is answered with status 202.
\<close>

fun cleanRun :: "handler_var \<Rightarrow> exchange list \<Rightarrow> bool" where
  "cleanRun h [] = True"
| "cleanRun h (x # xs) =
     (next_status x = 200 \<and> next_request_id x \<noteq> None \<and> next_body_ok x
      \<and> snd (snd (tryBlock h x (requestId x))) \<noteq> Some Unreportable
      \<and> post_status x = 202
      \<and> cleanRun (handlerAfter h x) xs)"


section \<open>Directory cleanup and port-file polling\<close>

text \<open>
  The file system of \<open>fs.promises\<close>, as far as \<open>readdir\<close> and \<open>rmdir\<close> see it: the
  directories and the files by absolute path (the components below the root, which is
  \<open>[]\<close>), and the directories the process may neither list nor remove. A path is
  resolved from the root: a component below a regular file gives \<open>ENOTDIR\<close>, one below
  a name that is not there gives \<open>ENOENT\<close>. \<open>dirname\<close> drops the last component and
  leaves the root.
\<close>

datatype errno = ENOENT | ENOTDIR | ENOTEMPTY | EBUSY | EACCES

record filesystem =
  dirs :: "string list list"
  files :: "string list list"
  denied :: "string list list"

fun walk :: "filesystem \<Rightarrow> string list \<Rightarrow> string list \<Rightarrow> errno option" where
  "walk fs seen [] = None"
| "walk fs seen (c # cs) =
     (if seen \<in> set (files fs) then Some ENOTDIR
      else if seen \<notin> set (dirs fs) then Some ENOENT
      else walk fs (seen @ [c]) cs)"

definition entries :: "filesystem \<Rightarrow> string list \<Rightarrow> string list" where
  "entries fs dir = map last (filter (\<lambda>p. p \<noteq> [] \<and> butlast p = dir) (dirs fs @ files fs))"

definition readdir :: "filesystem \<Rightarrow> string list \<Rightarrow> errno + string list" where
  "readdir fs dir =
     (case walk fs [] dir of
        Some err \<Rightarrow> Inl err
      | None \<Rightarrow>
          if dir \<in> set (denied fs) then Inl EACCES
          else if dir \<in> set (files fs) then Inl ENOTDIR
          else if dir \<notin> set (dirs fs) then Inl ENOENT
          else Inr (entries fs dir))"

definition rmdir :: "filesystem \<Rightarrow> string list \<Rightarrow> errno + filesystem" where
  "rmdir fs dir =
     (case walk fs [] dir of
        Some err \<Rightarrow> Inl err
      | None \<Rightarrow>
          if dir \<in> set (denied fs) then Inl EACCES
          else if dir \<in> set (files fs) then Inl ENOTDIR
          else if dir \<notin> set (dirs fs) then Inl ENOENT
          else if entries fs dir \<noteq> [] then Inl ENOTEMPTY
          else if dir = [] then Inl EBUSY
          else Inr (fs\<lparr>dirs := removeAll dir (dirs fs)\<rparr>))"

definition dirname :: "string list \<Rightarrow> string list" where
  "dirname dir = butlast dir"

text \<open>\<open>deleteEmptyDirs\<close>: no \<open>try\<close> around \<open>readdir\<close> or \<open>rmdir\<close>, so each error is the
  result.\<close>

function deleteEmptyDirs :: "filesystem \<Rightarrow> string list \<Rightarrow> errno + filesystem" where
  "deleteEmptyDirs fs dir =
     (case readdir fs dir of
        Inl err \<Rightarrow> Inl err
      | Inr fs_files \<Rightarrow>
          if length fs_files \<noteq> 0 then Inr fs
          else (case rmdir fs dir of
                  Inl err \<Rightarrow> Inl err
                | Inr fs' \<Rightarrow> deleteEmptyDirs fs' (dirname dir)))"
  by pat_completeness auto
termination
proof (relation "measure (\<lambda>(fs, dir). length dir)")
  show "wf (measure (\<lambda>(fs, dir). length dir))" by simp
next
  fix fs :: filesystem and dir :: "string list" and fs_files fs'
  assume "rmdir fs dir = Inr fs'"
  then have "dir \<noteq> []"
    by (auto simp: rmdir_def split: if_splits option.splits)
  then show "((fs', dirname dir), (fs, dir)) \<in> measure (\<lambda>(fs, dir). length dir)"
    by (simp add: dirname_def)
qed

text \<open>The file system and the directory that the cleanup has reached once it has removed
  \<open>n\<close> empty directories on its way up (\<open>None\<close> when it does not get that far).\<close>

fun ascend :: "filesystem \<Rightarrow> string list \<Rightarrow> nat \<Rightarrow> (filesystem \<times> string list) option" where
  "ascend fs dir 0 = Some (fs, dir)"
| "ascend fs dir (Suc n) =
     (case readdir fs dir of
        Inr [] \<Rightarrow> (case rmdir fs dir of Inr fs' \<Rightarrow> ascend fs' (dirname dir) n | Inl err \<Rightarrow> None)
      | _ \<Rightarrow> None)"

text \<open>
  \<open>waitForPortFile\<close>: each round of the loop observes \<open>opts.signal.aborted\<close> and, after
  the timer, what \<open>readFile\<close> does. The rounds to come are a list; where it ends the
  function is still polling (\<open>None\<close>). \<open>Number\<close> is a parameter. The result is a thrown
  error, a port, or nothing (aborted).
\<close>

record round =
  aborted :: bool
  readFile :: "errno + string"

fun waitForPortFile :: "(string \<Rightarrow> 'n) \<Rightarrow> round list \<Rightarrow> (errno + 'n option) option" where
  "waitForPortFile toNumber [] = None"
| "waitForPortFile toNumber (r # rs) =
     (if aborted r then Some (Inr None)
      else (case readFile r of
              Inr content \<Rightarrow> Some (Inr (Some (toNumber content)))
            | Inl err \<Rightarrow>
                if err \<noteq> ENOENT then Some (Inl err)
                else waitForPortFile toNumber rs))"

text \<open>The name of a key after a pass, and the strings for which a relocation from one root
  to another can be undone: those that do not already begin with the URI prefix of the
  other root, and in which the prefix of the first root, where it is there, is followed by
  the separator.\<close>

definition renamed :: "string \<Rightarrow> string \<Rightarrow> string \<Rightarrow> string" where
  "renamed uri newPath k = (if startsWith k uri then updatedOf newPath (relativeOf uri k) else k)"

definition roundTripSafe :: "string \<Rightarrow> string \<Rightarrow> string \<Rightarrow> bool" where
  "roundTripSafe pathA pathB s =
     (\<not> startsWith s (workPathUri pathB)
      \<and> (startsWith s (workPathUri pathA) \<longrightarrow> startsWith s (workPathUri pathA @ ''/'')))"

text \<open>Relocating a document from one root to another and the result back.\<close>

definition graphRoundTrip :: "string \<Rightarrow> string \<Rightarrow> graph \<Rightarrow> string set option \<Rightarrow> string set option \<Rightarrow> graph" where
  "graphRoundTrip pathA pathB g sf sf' =
     fst (relocateGraph pathB pathA (fst (relocateGraph pathA pathB g sf)) sf')"

definition buildInfoRoundTrip :: "string \<Rightarrow> string \<Rightarrow> buildInfo \<Rightarrow> string set option \<Rightarrow> string set option \<Rightarrow> buildInfo" where
  "buildInfoRoundTrip pathA pathB bi sf sf' =
     fst (relocateBuildInfo pathB pathA (fst (relocateBuildInfo pathA pathB bi sf)) sf')"

text \<open>
  For the keys of a map before a pass and after it: every key that matched the prefix is
  gone and its rewritten key is there (\<open>relocatedKeys\<close>); and no rewritten key equals a
  matching key of the same map (\<open>noClash\<close>).
\<close>

definition relocatedKeys :: "string \<Rightarrow> string \<Rightarrow> string list \<Rightarrow> string list \<Rightarrow> bool" where
  "relocatedKeys uri newPath ks ks' =
     list_all (\<lambda>k. updatedOf newPath (relativeOf uri k) \<in> set ks' \<and> k \<notin> set ks')
       (filter (\<lambda>k. startsWith k uri) ks)"

definition noClash :: "string \<Rightarrow> string \<Rightarrow> string list \<Rightarrow> bool" where
  "noClash uri newPath ks =
     list_all (\<lambda>k. updatedOf newPath (relativeOf uri k) \<notin> set (filter (\<lambda>k. startsWith k uri) ks))
       (filter (\<lambda>k. startsWith k uri) ks)"

section \<open>Properties of the array loop\<close>

declare patchArray.simps [simp del]


lemma rewriteVal_simps [simp]:
  "rewriteVal uri newPath (JStr dep) =
     (if startsWith dep uri then JStr (updatedOf newPath (relativeOf uri dep)) else JStr dep)"
  "rewriteVal uri newPath JNull = JNull"
  "rewriteVal uri newPath (JBool b) = JBool b"
  "rewriteVal uri newPath (JNum n) = JNum n"
  by (simp_all add: rewriteVal_def updatedOf_def relativeOf_def substring_def)

lemma matchesVal_simps [simp]:
  "matchesVal uri (JStr dep) = startsWith dep uri"
  "matchesVal uri JNull = False"
  "matchesVal uri (JBool b) = False"
  "matchesVal uri (JNum n) = False"
  by (simp_all add: matchesVal_def)

lemma relativesOf_simps [simp]:
  "relativesOf uri [] = []"
  "relativesOf uri (JStr dep # vs) =
     (if startsWith dep uri then relativeOf uri dep # relativesOf uri vs else relativesOf uri vs)"
  "relativesOf uri (JNull # vs) = relativesOf uri vs"
  "relativesOf uri (JBool b # vs) = relativesOf uri vs"
  "relativesOf uri (JNum n # vs) = relativesOf uri vs"
  by (simp_all add: relativesOf_def relativeOf_def substring_def)

lemma patchArray_closed_aux:
  "i \<le> length arr \<Longrightarrow>
   patchArray uri newPath i arr p =
     (take i arr @ map (rewriteVal uri newPath) (drop i arr),
      (map_option (\<lambda>S. S \<union> set (relativesOf uri (drop i arr))) (fst p),
       snd p \<or> list_ex (matchesVal uri) (drop i arr)))"
proof (induction uri newPath i arr p rule: patchArray.induct)
  case (1 uri newPath i arr sf nw)
  note unf = patchArray.simps[of uri newPath i arr sf nw]
  show ?case
  proof (cases "i < length arr")
    case False
    then have "patchArray uri newPath i arr (sf, nw) = (arr, (sf, nw))"
      by (simp add: unf)
    with False "1.prems" show ?thesis
      by (simp add: option.map_ident)
  next
    case True
    then have d: "drop i arr = arr ! i # drop (Suc i) arr"
      by (simp add: Cons_nth_drop_Suc)
    have t: "take (Suc i) arr = take i arr @ [arr ! i]"
      using True by (simp add: take_Suc_conv_app_nth)
    have le: "i + 1 \<le> length arr" using True by simp
    show ?thesis
    proof (cases "arr ! i")
      case (JStr dep)
      show ?thesis
      proof (cases "startsWith dep uri")
        case m: True
        let ?arr' = "arr[i := JStr (updatedOf newPath (relativeOf uri dep))]"
        have step: "patchArray uri newPath i arr (sf, nw) =
              patchArray uri newPath (i + 1) ?arr' (map_option (insert (relativeOf uri dep)) sf, True)"
          using True JStr m by (simp add: unf)
        have le': "i + 1 \<le> length ?arr'" using True by simp
        have dr: "drop (Suc i) ?arr' = drop (Suc i) arr" by simp
        have tk: "take (Suc i) ?arr' = take i arr @ [JStr (updatedOf newPath (relativeOf uri dep))]"
          using True by (simp add: take_Suc_conv_app_nth)
        show ?thesis
          unfolding step "1.IH"(4)[OF True JStr m le']
          using JStr m
          by (cases sf) (simp_all add: d dr tk)
      next
        case m: False
        have step: "patchArray uri newPath i arr (sf, nw) = patchArray uri newPath (i + 1) arr (sf, nw)"
          using True JStr m by (simp add: unf)
        show ?thesis
          unfolding step "1.IH"(5)[OF True JStr m le]
          using JStr m by (simp add: d t)
      qed
    next
      case JNull
      have step: "patchArray uri newPath i arr (sf, nw) = patchArray uri newPath (i + 1) arr (sf, nw)"
        using True JNull by (simp add: unf)
      show ?thesis
        unfolding step "1.IH"(1)[OF True JNull le]
        using JNull by (simp add: d t)
    next
      case (JBool b)
      have step: "patchArray uri newPath i arr (sf, nw) = patchArray uri newPath (i + 1) arr (sf, nw)"
        using True JBool by (simp add: unf)
      show ?thesis
        unfolding step "1.IH"(2)[OF True JBool le]
        using JBool by (simp add: d t)
    next
      case (JNum n)
      have step: "patchArray uri newPath i arr (sf, nw) = patchArray uri newPath (i + 1) arr (sf, nw)"
        using True JNum by (simp add: unf)
      show ?thesis
        unfolding step "1.IH"(3)[OF True JNum le]
        using JNum by (simp add: d t)
    qed
  qed
qed

lemma patchArray_closed:
  "patchArray uri newPath 0 arr (sf, nw) =
     (map (rewriteVal uri newPath) arr,
      (map_option (\<lambda>S. S \<union> set (relativesOf uri arr)) sf,
       nw \<or> list_ex (matchesVal uri) arr))"
  by (simp add: patchArray_closed_aux)

section \<open>Closed forms of the map loops\<close>

lemma patchKeys_closed:
  "patchKeys uri newPath ks obj p =
     (foldl (renameKey uri newPath) obj ks,
      (map_option (\<lambda>S. S \<union> set (relatives uri ks)) (fst p),
       snd p \<or> list_ex (\<lambda>k. startsWith k uri) ks))"
proof (induction ks arbitrary: obj p)
  case Nil
  then show ?case by (simp add: relatives_def option.map_ident)
next
  case (Cons k ks)
  obtain sf nw where p: "p = (sf, nw)" by (cases p)
  show ?case
    unfolding p by (cases sf) (simp_all add: Cons.IH renameKey_def relatives_def)
qed

lemma patchRefs_closed:
  "length todo = length ks \<Longrightarrow>
   patchRefs uri newPath (zip ks [length done ..< length done + length ks]) obj (done @ todo) p =
     (foldl (rekey uri newPath) obj (zip ks [length done ..< length done + length ks]),
      done @ map (map (rewriteVal uri newPath)) todo,
      (map_option (\<lambda>S. S \<union> set (concat (map (relativesOf uri) todo)) \<union> set (relatives uri ks)) (fst p),
       snd p \<or> list_ex (list_ex (matchesVal uri)) todo \<or> list_ex (\<lambda>k. startsWith k uri) ks))"
proof (induction ks arbitrary: todo "done" obj p)
  case Nil
  then show ?case by (simp add: relatives_def option.map_ident)
next
  case (Cons k ks)
  then obtain t todo' where todo: "todo = t # todo'" and len: "length todo' = length ks"
    by (cases todo) auto
  obtain sf nw where p: "p = (sf, nw)" by (cases p)
  let ?t' = "map (rewriteVal uri newPath) t"
  let ?es' = "zip ks [length (done @ [?t']) ..< length (done @ [?t']) + length ks]"
  let ?obj' = "AList.delete k (AList.update (updatedOf newPath (relativeOf uri k)) (length done) obj)"
  let ?sf' = "map_option (\<lambda>S. S \<union> set (relativesOf uri t)) sf"
  have z: "zip (k # ks) [length done ..< length done + length (k # ks)] = (k, length done) # ?es'"
    by (simp del: upt_Suc add: upt_conv_Cons)
  have h: "(done @ t # todo')[length done := ?t'] = (done @ [?t']) @ todo'"
    by simp
  have n: "(done @ t # todo') ! length done = t" by simp
  have rk: "rekey uri newPath obj (k, length done) = (if startsWith k uri then ?obj' else obj)"
    by (simp add: rekey_def)
  have step: "patchRefs uri newPath ((k, length done) # ?es') obj (done @ t # todo') (sf, nw) =
     (if startsWith k uri then
        patchRefs uri newPath ?es' ?obj' ((done @ [?t']) @ todo')
          (map_option (insert (relativeOf uri k)) ?sf', True)
      else patchRefs uri newPath ?es' obj ((done @ [?t']) @ todo')
          (?sf', nw \<or> list_ex (matchesVal uri) t))"
    by (simp only: patchRefs.simps n patchArray_closed prod.case h)
  show ?case
  proof (cases "startsWith k uri")
    case True
    show ?thesis
      unfolding todo z p step foldl_Cons rk
      by (cases sf) (simp_all only: True if_True Cons.IH[OF len], simp_all add: True relatives_def Un_ac del: upt_Suc)
  next
    case False
    show ?thesis
      unfolding todo z p step foldl_Cons rk
      by (cases sf) (simp_all only: False if_False Cons.IH[OF len], simp_all add: False relatives_def Un_ac del: upt_Suc)
  qed
qed

lemma deref_alloc: "deref (zip (map fst al) [0..<length al]) (map snd al) = al"
  by (rule nth_equalityI) (simp_all add: deref_def)

lemma patchMap_closed:
  "patchMap uri newPath al p =
     (deref (foldl (rekey uri newPath) (fst (alloc al)) (fst (alloc al)))
            (map (map (rewriteVal uri newPath)) (map snd al)),
      (map_option (\<lambda>S. S \<union> set (concat (map (relativesOf uri) (map snd al))) \<union> set (relatives uri (map fst al))) (fst p),
       snd p \<or> list_ex (list_ex (matchesVal uri)) (map snd al) \<or> list_ex (\<lambda>k. startsWith k uri) (map fst al)))"
  using patchRefs_closed[of "map snd al" "map fst al" uri newPath "[]" "fst (alloc al)" p]
  by (simp add: patchMap_def alloc_def)

section \<open>The whole pass in closed form\<close>

lemma stringsOf_simps [simp]:
  "stringsOf [] = []"
  "stringsOf (JStr s # vs) = s # stringsOf vs"
  "stringsOf (JNull # vs) = stringsOf vs"
  "stringsOf (JBool b # vs) = stringsOf vs"
  "stringsOf (JNum n # vs) = stringsOf vs"
  by (simp_all add: stringsOf_def)

lemma relativesOf_strings: "relativesOf uri arr = relatives uri (stringsOf arr)"
proof (induction arr)
  case Nil
  show ?case by (simp add: relatives_def)
next
  case (Cons v vs)
  then show ?case by (cases v) (simp_all add: relatives_def)
qed

lemma matches_strings: "list_ex (matchesVal uri) arr = list_ex (\<lambda>s. startsWith s uri) (stringsOf arr)"
proof (induction arr)
  case Nil
  show ?case by simp
next
  case (Cons v vs)
  then show ?case by (cases v) simp_all
qed

lemma relatives_append [simp]: "relatives uri (xs @ ys) = relatives uri xs @ relatives uri ys"
  by (simp add: relatives_def)

lemma relatives_concat: "relatives uri (concat xss) = concat (map (relatives uri) xss)"
  by (induction xss) (simp_all add: relatives_def)

lemma rewriteVal_id: "\<not> list_ex (matchesVal uri) arr \<Longrightarrow> map (rewriteVal uri newPath) arr = arr"
proof (induction arr)
  case Nil
  show ?case by simp
next
  case (Cons v vs)
  then show ?case by (cases v) simp_all
qed

lemma foldl_renameKey_id:
  "\<not> list_ex (\<lambda>k. startsWith k uri) ks \<Longrightarrow> foldl (renameKey uri newPath) obj ks = obj"
  by (induction ks arbitrary: obj) (simp_all add: renameKey_def)

lemma foldl_rekey_id:
  "\<not> list_ex (\<lambda>k. startsWith k uri) (map fst es) \<Longrightarrow> foldl (rekey uri newPath) obj es = obj"
  by (induction es arbitrary: obj) (simp_all add: rekey_def)

lemma patchOptArray_closed:
  "patchOptArray uri newPath arr p =
     (map_option (map (rewriteVal uri newPath)) arr,
      (map_option (\<lambda>S. S \<union> set (relatives uri (stringsOf (optArray arr)))) (fst p),
       snd p \<or> list_ex (\<lambda>s. startsWith s uri) (stringsOf (optArray arr))))"
  by (cases arr; cases p)
     (simp_all add: patchOptArray_def optArray_def patchArray_closed relativesOf_strings matches_strings
        relatives_def option.map_ident)

lemma map_option_Un: "map_option (\<lambda>S. S \<union> B) (map_option (\<lambda>S. S \<union> A) sf) = map_option (\<lambda>S. S \<union> (A \<union> B)) sf"
  by (cases sf) (simp_all add: Un_assoc)

lemma list_ex_concat: "list_ex P (concat xss) = list_ex (list_ex P) xss"
  by (induction xss) simp_all

text \<open>The pass over a whole build-info document in closed form.\<close>

lemma relocateBuildInfo_closed:
  "relocateBuildInfo oldPath newPath bi sf =
     (bi\<lparr>program := (program bi)\<lparr>
          fileNames := map_option (map (rewriteVal (workPathUri oldPath) newPath)) (fileNames (program bi)),
          fileInfos := foldl (renameKey (workPathUri oldPath) newPath) (fileInfos (program bi))
                         (map fst (fileInfos (program bi))),
          referencedMap := fst (patchMap (workPathUri oldPath) newPath (referencedMap (program bi)) (None, False)),
          exportedModulesMap := fst (patchMap (workPathUri oldPath) newPath (exportedModulesMap (program bi)) (None, False)),
          semanticDiagnosticsPerFile :=
            map_option (map (rewriteVal (workPathUri oldPath) newPath)) (semanticDiagnosticsPerFile (program bi))\<rparr>\<rparr>,
      (map_option (\<lambda>S. S \<union> set (relatives (workPathUri oldPath) (examinedStrings (program bi)))) sf,
       list_ex (\<lambda>s. startsWith s (workPathUri oldPath)) (examinedStrings (program bi))))"
proof -
  have m: "list_ex (list_ex (matchesVal uri)) (map snd al) =
           list_ex (\<lambda>s. startsWith s uri) (concat (map (\<lambda>e. stringsOf (snd e)) al))" for uri al
    by (induction al) (simp_all add: matches_strings)
  have r: "set (concat (map (relativesOf uri) (map snd al))) =
           set (relatives uri (concat (map (\<lambda>e. stringsOf (snd e)) al)))" for uri al
    by (induction al) (simp_all add: relativesOf_strings relatives_def)
  show ?thesis
    unfolding relocateBuildInfo_def Let_def patchKeys_closed patchMap_closed patchOptArray_closed
      prod.case fst_conv snd_conv m r
    by (cases sf) (simp_all add: examinedStrings_def Un_ac disj_ac)
qed

lemma startsWith_append [simp]: "startsWith (p @ t) p"
  by (simp add: startsWith_def)

lemma relativeOf_append [simp]: "relativeOf uri (uri @ c # s) = s"
  by (simp add: relativeOf_def substring_def)

lemma relocateGraph_closed:
  "relocateGraph oldPath newPath g sf =
     (g\<lparr>deps := map (rewriteVal (workPathUri oldPath) newPath) (deps g)\<rparr>,
      (map_option (\<lambda>S. S \<union> set (relativesOf (workPathUri oldPath) (deps g))) sf,
       list_ex (matchesVal (workPathUri oldPath)) (deps g)))"
  by (simp add: relocateGraph_def patchArray_closed)

lemma relatives_none: "\<not> list_ex (\<lambda>s. startsWith s uri) strs \<Longrightarrow> relatives uri strs = []"
  by (induction strs) (simp_all add: relatives_def)

lemma patchMap_id:
  assumes "\<not> list_ex (\<lambda>s. startsWith s uri) (map fst al)"
    and "\<not> list_ex (\<lambda>s. startsWith s uri) (concat (map (\<lambda>e. stringsOf (snd e)) al))"
  shows "fst (patchMap uri newPath al p) = al"
proof -
  have "list_all (\<lambda>e. \<not> list_ex (matchesVal uri) (snd e)) al"
    using assms(2) by (induction al) (simp_all add: matches_strings)
  then have "map (map (rewriteVal uri newPath)) (map snd al) = map snd al"
    by (induction al) (simp_all add: rewriteVal_id)
  moreover have "foldl (rekey uri newPath) (fst (alloc al)) (fst (alloc al)) = fst (alloc al)"
    using assms(1) by (intro foldl_rekey_id) (simp add: alloc_def)
  ultimately show ?thesis
    unfolding patchMap_closed fst_conv by (simp only: alloc_def fst_conv deref_alloc)
qed

lemma optArray_id:
  "\<not> list_ex (\<lambda>s. startsWith s uri) (stringsOf (optArray arr)) \<Longrightarrow>
   map_option (map (rewriteVal uri newPath)) arr = arr"
  by (cases arr) (simp_all add: optArray_def rewriteVal_id matches_strings)

lemma relocateGraph_noop:
  assumes "\<not> list_ex (\<lambda>s. startsWith s (workPathUri oldPath)) (stringsOf (deps g))"
  shows "relocateGraph oldPath newPath g sf = (g, (sf, False))"
  using assms
  by (simp add: relocateGraph_closed rewriteVal_id matches_strings relativesOf_strings relatives_none
      option.map_ident)

lemma relocateBuildInfo_noop:
  assumes "\<not> list_ex (\<lambda>s. startsWith s (workPathUri oldPath)) (examinedStrings (program bi))"
  shows "relocateBuildInfo oldPath newPath bi sf = (bi, (sf, False))"
proof -
  let ?uri = "workPathUri oldPath"
  from assms have parts:
    "\<not> list_ex (\<lambda>s. startsWith s ?uri) (map fst (fileInfos (program bi)))"
    "\<not> list_ex (\<lambda>s. startsWith s ?uri) (map fst (referencedMap (program bi)))"
    "\<not> list_ex (\<lambda>s. startsWith s ?uri) (concat (map (\<lambda>e. stringsOf (snd e)) (referencedMap (program bi))))"
    "\<not> list_ex (\<lambda>s. startsWith s ?uri) (map fst (exportedModulesMap (program bi)))"
    "\<not> list_ex (\<lambda>s. startsWith s ?uri) (concat (map (\<lambda>e. stringsOf (snd e)) (exportedModulesMap (program bi))))"
    "\<not> list_ex (\<lambda>s. startsWith s ?uri) (stringsOf (optArray (fileNames (program bi))))"
    "\<not> list_ex (\<lambda>s. startsWith s ?uri) (stringsOf (optArray (semanticDiagnosticsPerFile (program bi))))"
    by (simp_all add: examinedStrings_def)
  show ?thesis
    unfolding relocateBuildInfo_closed
    by (simp add: assms relatives_none option.map_ident foldl_renameKey_id[OF parts(1)]
        patchMap_id[OF parts(2,3)] patchMap_id[OF parts(4,5)] optArray_id[OF parts(6)] optArray_id[OF parts(7)])
qed

section \<open>Properties of the runtime loop\<close>

lemma isPost_simps [simp]:
  "isPost (PostResponse i) = True" "isPost (PostError i) = True"
  "isPost Poll = False" "isPost LogInvokeError = False" "isPost Import = False"
  "isPost (Invoke i) = False"
  by (simp_all add: isPost_def)

lemma postId_simps [simp]:
  "postId (PostResponse i) = i" "postId (PostError i) = i"
  by (simp_all add: postId_def)

lemma isInvoke_simps [simp]:
  "isInvoke (Invoke i) = True" "isInvoke (PostResponse i) = False" "isInvoke (PostError i) = False"
  "isInvoke Poll = False" "isInvoke LogInvokeError = False" "isInvoke Import = False"
  by (simp_all add: isInvoke_def)

lemma nextInvocation_Poll: "\<exists>evs. fst (nextInvocation x) = Poll # evs"
  by (simp add: nextInvocation_def split: option.splits)

lemma processEvents_nonempty: "fst (processEvents h xs) \<noteq> []"
proof (cases xs)
  case Nil
  then show ?thesis by simp
next
  case (Cons x xs')
  obtain evs r where n: "nextInvocation x = (Poll # evs, r)"
    using nextInvocation_Poll[of x] by (cases "nextInvocation x") auto
  show ?thesis
    unfolding Cons by (simp add: n Let_def split: option.splits prod.splits)
qed

text \<open>A run that is still polling after its first exchange went through every stage of
  that exchange.\<close>

lemma processEvents_Cons_Blocked:
  assumes "snd (snd (processEvents h (x # xs))) = Blocked"
  obtains evs i h' evs' caught where
    "nextInvocation x = (evs, Some i)"
    "tryBlock h x i = (h', evs', caught)"
    "caught \<noteq> Some Unreportable"
    "post_status x = 202"
    "snd (snd (processEvents h' xs)) = Blocked"
    "processEvents h (x # xs) =
       (evs @ evs' @ (if caught = None then [PostResponse i] else [LogInvokeError, PostError i])
          @ fst (processEvents h' xs), snd (processEvents h' xs))"
proof -
  obtain evs r where n: "nextInvocation x = (evs, r)" by (cases "nextInvocation x")
  from assms n obtain i where r: "r = Some i" by (cases r) auto
  obtain h' evs' caught where t: "tryBlock h x i = (h', evs', caught)"
    by (cases "tryBlock h x i")
  from assms n r t have c: "caught \<noteq> Some Unreportable"
    by (auto split: if_splits)
  from assms n r t c have st: "post_status x = 202"
    by (auto simp: Let_def split: if_splits)
  obtain rest h2 e where p: "processEvents h' xs = (rest, h2, e)"
    by (cases "processEvents h' xs")
  have full: "processEvents h (x # xs) =
       (evs @ evs' @ (if caught = None then [PostResponse i] else [LogInvokeError, PostError i])
          @ fst (processEvents h' xs), snd (processEvents h' xs))"
    using c by (simp add: n r t st p Let_def)
  from assms have "snd (snd (processEvents h' xs)) = Blocked"
    unfolding full by simp
  with n r t c st full show ?thesis
    by (intro that[of evs i h' evs' caught]) simp_all
qed

lemma processEvents_append:
  "snd (snd (processEvents h pre)) = Blocked \<Longrightarrow>
   processEvents h (pre @ ys) =
     (butlast (fst (processEvents h pre)) @ fst (processEvents (fst (snd (processEvents h pre))) ys),
      snd (processEvents (fst (snd (processEvents h pre))) ys))"
proof (induction pre arbitrary: h)
  case Nil
  then show ?case by simp
next
  case (Cons x pre)
  from processEvents_Cons_Blocked[OF Cons.prems] obtain evs i h' evs' and caught :: "thrown option" where
    s: "nextInvocation x = (evs, Some i)" "tryBlock h x i = (h', evs', caught)"
      "caught \<noteq> Some Unreportable" "post_status x = 202"
      "snd (snd (processEvents h' pre)) = Blocked"
    by metis
  obtain rest h2 e where r: "processEvents h' pre = (rest, h2, e)"
    by (cases "processEvents h' pre")
  have ne: "rest \<noteq> []" using processEvents_nonempty[of h' pre] by (simp add: r)
  show ?case
    using Cons.IH[OF s(5)] ne s(3)
    by (simp add: s(1,2,4) r Let_def butlast_append split: prod.splits)
qed

lemma processEvents_last_Poll:
  "snd (snd (processEvents h xs)) = Blocked \<Longrightarrow> last (fst (processEvents h xs)) = Poll"
proof (induction xs arbitrary: h)
  case Nil
  then show ?case by simp
next
  case (Cons x xs)
  from processEvents_Cons_Blocked[OF Cons.prems] obtain evs i h' evs' and caught :: "thrown option" where
    s: "snd (snd (processEvents h' xs)) = Blocked"
      "processEvents h (x # xs) =
       (evs @ evs' @ (if caught = None then [PostResponse i] else [LogInvokeError, PostError i])
          @ fst (processEvents h' xs), snd (processEvents h' xs))"
    by metis
  have "fst (processEvents h' xs) \<noteq> []" by (rule processEvents_nonempty)
  then show ?case
    unfolding s(2) fst_conv using Cons.IH[OF s(1)] by simp
qed

lemma tryBlock_handlerAfter: "fst (tryBlock h x i) = handlerAfter h x"
  by (simp add: tryBlock_def handlerAfter_def split: import_answer.splits prod.splits)

lemma tryBlock_events:
  assumes "tryBlock h x i = (h', evs, caught)"
  shows "filter (\<lambda>e. e = Poll \<or> isPost e) evs = []"
    and "filter isPost evs = []"
    and "length (filter isInvoke evs) \<le> 1"
    and "count_list evs Import = (if unloaded h then 1 else 0)"
  using assms
  by (auto simp: tryBlock_def callHandler_def unloaded_def
      split: if_splits import_answer.splits prod.splits option.splits)

lemma handlerAfter_loaded: "\<not> unloaded h \<Longrightarrow> handlerAfter h x = h"
  by (simp add: handlerAfter_def)

lemma handlerAfter_truthy:
  "unloaded h \<Longrightarrow> import_answer x = Exports e \<Longrightarrow> e \<noteq> Falsy \<Longrightarrow> \<not> unloaded (handlerAfter h x)"
  by (simp add: handlerAfter_def unloaded_def)

lemma foundFalsy_loaded: "\<not> unloaded h \<Longrightarrow> foundFalsy h xs = 0"
  by (induction xs) (simp_all add: handlerAfter_loaded)

lemma foundFalsy_le: "foundFalsy h xs \<le> length xs"
proof (induction xs arbitrary: h)
  case Nil
  show ?case by simp
next
  case (Cons x xs)
  from Cons.IH[of "handlerAfter h x"] show ?case by simp
qed

lemma cleanRun_step:
  assumes "cleanRun h (x # xs)"
  obtains t evs caught where
    "t \<noteq> Poll" "t \<noteq> Import" "\<not> isPost t" "\<not> isInvoke t"
    "tryBlock h x (requestId x) = (handlerAfter h x, evs, caught)"
    "cleanRun (handlerAfter h x) xs"
    "processEvents h (x # xs) =
       ([Poll, t] @ evs @ (if caught = None then [PostResponse (requestId x)]
                           else [LogInvokeError, PostError (requestId x)])
          @ fst (processEvents (handlerAfter h x) xs),
        snd (processEvents (handlerAfter h x) xs))"
proof -
  from assms have a: "next_status x = 200" "next_request_id x \<noteq> None" "next_body_ok x"
    "snd (snd (tryBlock h x (requestId x))) \<noteq> Some Unreportable" "post_status x = 202"
    "cleanRun (handlerAfter h x) xs"
    by simp_all
  from a(1,2,3) obtain t where
    n: "nextInvocation x = ([Poll, t], Some (requestId x))"
    and t: "t \<noteq> Poll" "t \<noteq> Import" "\<not> isPost t" "\<not> isInvoke t"
    by (auto simp: nextInvocation_def requestId_def isPost_def isInvoke_def split: option.splits)
  obtain evs caught where tb: "tryBlock h x (requestId x) = (handlerAfter h x, evs, caught)"
    using tryBlock_handlerAfter[of h x "requestId x"] by (cases "tryBlock h x (requestId x)") auto
  with a(4) have c: "caught \<noteq> Some Unreportable" by simp
  obtain rest h2 e where p: "processEvents (handlerAfter h x) xs = (rest, h2, e)"
    by (cases "processEvents (handlerAfter h x) xs")
  have "processEvents h (x # xs) =
       ([Poll, t] @ evs @ (if caught = None then [PostResponse (requestId x)]
                           else [LogInvokeError, PostError (requestId x)])
          @ fst (processEvents (handlerAfter h x) xs),
        snd (processEvents (handlerAfter h x) xs))"
    using c by (simp add: n tb a(5) p Let_def)
  with t tb a(6) show ?thesis by (rule that)
qed

lemma cleanRun_blocked: "cleanRun h xs \<Longrightarrow> snd (snd (processEvents h xs)) = Blocked"
proof (induction xs arbitrary: h)
  case Nil
  show ?case by simp
next
  case (Cons x xs)
  from cleanRun_step[OF Cons.prems] obtain t evs and caught :: "thrown option" where
    s: "cleanRun (handlerAfter h x) xs"
      "processEvents h (x # xs) =
       ([Poll, t] @ evs @ (if caught = None then [PostResponse (requestId x)]
                           else [LogInvokeError, PostError (requestId x)])
          @ fst (processEvents (handlerAfter h x) xs),
        snd (processEvents (handlerAfter h x) xs))"
    by metis
  show ?case unfolding s(2) snd_conv by (rule Cons.IH[OF s(1)])
qed

lemma blocked_cleanRun: "snd (snd (processEvents h xs)) = Blocked \<Longrightarrow> cleanRun h xs"
proof (induction xs arbitrary: h)
  case Nil
  show ?case by simp
next
  case (Cons x xs)
  from processEvents_Cons_Blocked[OF Cons.prems] obtain evs i h' evs' and caught :: "thrown option" where
    s: "nextInvocation x = (evs, Some i)" "tryBlock h x i = (h', evs', caught)"
      "caught \<noteq> Some Unreportable" "post_status x = 202"
      "snd (snd (processEvents h' xs)) = Blocked"
    by metis
  from s(1) have n: "next_status x = 200" "next_request_id x = Some i" "next_body_ok x"
    by (auto simp: nextInvocation_def split: if_splits option.splits)
  then have i: "requestId x = i" by (simp add: requestId_def)
  from s(2) tryBlock_handlerAfter[of h x i] have h': "h' = handlerAfter h x" by simp
  from Cons.IH[OF s(5)] h' have "cleanRun (handlerAfter h x) xs" by simp
  with n s(2,3,4) i show ?case by simp
qed

lemma cleanRun_posts:
  "cleanRun h xs \<Longrightarrow> map postId (filter isPost (fst (processEvents h xs))) = map requestId xs"
proof (induction xs arbitrary: h)
  case Nil
  show ?case by simp
next
  case (Cons x xs)
  from cleanRun_step[OF Cons.prems] obtain t evs and caught :: "thrown option" where
    s: "\<not> isPost t" "tryBlock h x (requestId x) = (handlerAfter h x, evs, caught)"
      "cleanRun (handlerAfter h x) xs"
      "processEvents h (x # xs) =
       ([Poll, t] @ evs @ (if caught = None then [PostResponse (requestId x)]
                           else [LogInvokeError, PostError (requestId x)])
          @ fst (processEvents (handlerAfter h x) xs),
        snd (processEvents (handlerAfter h x) xs))"
    by metis
  show ?case
    unfolding s(4) fst_conv
    using s(1) tryBlock_events(2)[OF s(2)] Cons.IH[OF s(3)] by simp
qed

lemma cleanRun_alternate:
  "cleanRun h xs \<Longrightarrow>
   filter (\<lambda>e. e = Poll \<or> isPost e) (fst (processEvents h xs)) =
     concat (map (\<lambda>p. [Poll, p]) (filter isPost (fst (processEvents h xs)))) @ [Poll]"
proof (induction xs arbitrary: h)
  case Nil
  show ?case by simp
next
  case (Cons x xs)
  from cleanRun_step[OF Cons.prems] obtain t evs and caught :: "thrown option" where
    s: "t \<noteq> Poll" "\<not> isPost t" "tryBlock h x (requestId x) = (handlerAfter h x, evs, caught)"
      "cleanRun (handlerAfter h x) xs"
      "processEvents h (x # xs) =
       ([Poll, t] @ evs @ (if caught = None then [PostResponse (requestId x)]
                           else [LogInvokeError, PostError (requestId x)])
          @ fst (processEvents (handlerAfter h x) xs),
        snd (processEvents (handlerAfter h x) xs))"
    by metis
  show ?case
    unfolding s(5) fst_conv
    using s(1,2) tryBlock_events(1,2)[OF s(3)] Cons.IH[OF s(4)] by simp
qed

lemma cleanRun_invokes:
  "cleanRun h xs \<Longrightarrow> length (filter isInvoke (fst (processEvents h xs))) \<le> length xs"
proof (induction xs arbitrary: h)
  case Nil
  show ?case by simp
next
  case (Cons x xs)
  from cleanRun_step[OF Cons.prems] obtain t evs and caught :: "thrown option" where
    s: "\<not> isInvoke t" "tryBlock h x (requestId x) = (handlerAfter h x, evs, caught)"
      "cleanRun (handlerAfter h x) xs"
      "processEvents h (x # xs) =
       ([Poll, t] @ evs @ (if caught = None then [PostResponse (requestId x)]
                           else [LogInvokeError, PostError (requestId x)])
          @ fst (processEvents (handlerAfter h x) xs),
        snd (processEvents (handlerAfter h x) xs))"
    by metis
  show ?case
    unfolding s(4) fst_conv
    using s(1) tryBlock_events(3)[OF s(2)] Cons.IH[OF s(3)] by simp
qed

lemma cleanRun_imports:
  "cleanRun h xs \<Longrightarrow> count_list (fst (processEvents h xs)) Import = foundFalsy h xs"
proof (induction xs arbitrary: h)
  case Nil
  show ?case by simp
next
  case (Cons x xs)
  from cleanRun_step[OF Cons.prems] obtain t evs and caught :: "thrown option" where
    s: "t \<noteq> Import" "tryBlock h x (requestId x) = (handlerAfter h x, evs, caught)"
      "cleanRun (handlerAfter h x) xs"
      "processEvents h (x # xs) =
       ([Poll, t] @ evs @ (if caught = None then [PostResponse (requestId x)]
                           else [LogInvokeError, PostError (requestId x)])
          @ fst (processEvents (handlerAfter h x) xs),
        snd (processEvents (handlerAfter h x) xs))"
    by metis
  show ?case
    unfolding s(4) fst_conv
    using s(1) tryBlock_events(4)[OF s(2)] Cons.IH[OF s(3)] by simp
qed

lemma cleanRun_iff_blocked: "cleanRun h xs = (snd (snd (processEvents h xs)) = Blocked)"
  using cleanRun_blocked blocked_cleanRun by blast

lemma cleanRun_first_import:
  assumes "cleanRun h (x # xs)"
  shows "(Import \<in> set (takeWhile (\<lambda>e. \<not> isPost e) (fst (processEvents h (x # xs))))) = unloaded h"
proof -
  from cleanRun_step[OF assms] obtain t evs and caught :: "thrown option" where
    s: "t \<noteq> Import" "\<not> isPost t" "tryBlock h x (requestId x) = (handlerAfter h x, evs, caught)"
      "processEvents h (x # xs) =
       ([Poll, t] @ evs @ (if caught = None then [PostResponse (requestId x)]
                           else [LogInvokeError, PostError (requestId x)])
          @ fst (processEvents (handlerAfter h x) xs),
        snd (processEvents (handlerAfter h x) xs))"
    by metis
  let ?rest = "fst (processEvents (handlerAfter h x) xs)"
  have np: "\<And>e. e \<in> set ([Poll, t] @ evs) \<Longrightarrow> \<not> isPost e"
    using s(2) tryBlock_events(2)[OF s(3)] by (auto simp: filter_empty_conv)
  have sp: "takeWhile (\<lambda>e. \<not> isPost e) (([Poll, t] @ evs) @ ys) =
      ([Poll, t] @ evs) @ takeWhile (\<lambda>e. \<not> isPost e) ys" for ys
    by (rule takeWhile_append2[OF np])
  have tr: "fst (processEvents h (x # xs)) =
      ([Poll, t] @ evs) @ ((if caught = None then [PostResponse (requestId x)]
                           else [LogInvokeError, PostError (requestId x)]) @ ?rest)"
    unfolding s(4) fst_conv by simp
  have tw: "takeWhile (\<lambda>e. \<not> isPost e) (fst (processEvents h (x # xs))) =
      ([Poll, t] @ evs) @ (if caught = None then [] else [LogInvokeError])"
    unfolding tr sp by simp
  have "(Import \<in> set evs) = unloaded h"
    using tryBlock_events(4)[OF s(3)] count_list_0_iff[of evs Import] by (auto split: if_splits)
  then show ?thesis
    unfolding tw using s(1) by auto
qed

section \<open>Properties of the cleanup and of the polling\<close>

declare deleteEmptyDirs.simps [simp del]

lemma deleteEmptyDirs_readdir_error:
  "readdir fs dir = Inl e \<Longrightarrow> deleteEmptyDirs fs dir = Inl e"
  by (simp add: deleteEmptyDirs.simps[of fs dir])

lemma deleteEmptyDirs_rmdir_error:
  "readdir fs dir = Inr [] \<Longrightarrow> rmdir fs dir = Inl e \<Longrightarrow> deleteEmptyDirs fs dir = Inl e"
  by (simp add: deleteEmptyDirs.simps[of fs dir])

lemma deleteEmptyDirs_up:
  "readdir fs dir = Inr [] \<Longrightarrow> rmdir fs dir = Inr fs' \<Longrightarrow>
   deleteEmptyDirs fs dir = deleteEmptyDirs fs' (dirname dir)"
  by (simp add: deleteEmptyDirs.simps[of fs dir])

lemma deleteEmptyDirs_stop:
  "readdir fs dir = Inr (f # fl) \<Longrightarrow> deleteEmptyDirs fs dir = Inr fs"
  by (simp add: deleteEmptyDirs.simps[of fs dir])

lemma deleteEmptyDirs_ascend:
  "ascend fs dir n = Some (fs', dir') \<Longrightarrow> deleteEmptyDirs fs dir = deleteEmptyDirs fs' dir'"
proof (induction n arbitrary: fs dir)
  case 0
  then show ?case by simp
next
  case (Suc n)
  from Suc.prems obtain fs1 where r: "readdir fs dir = Inr []" and m: "rmdir fs dir = Inr fs1"
    and a: "ascend fs1 (dirname dir) n = Some (fs', dir')"
    by (auto split: sum.splits list.splits)
  from deleteEmptyDirs_up[OF r m] Suc.IH[OF a] show ?case by simp
qed

text \<open>The cleanup returns only by reaching a directory that is not empty, after removals
  none of which failed.\<close>

lemma deleteEmptyDirs_returns:
  "deleteEmptyDirs fs dir = Inr fs'' \<Longrightarrow>
   \<exists>n dir' f fl. ascend fs dir n = Some (fs'', dir') \<and> readdir fs'' dir' = Inr (f # fl)"
proof (induction fs dir rule: deleteEmptyDirs.induct)
  case (1 fs dir)
  show ?case
  proof (cases "readdir fs dir")
    case (Inl e)
    with "1.prems" show ?thesis by (simp add: deleteEmptyDirs_readdir_error)
  next
    case (Inr fs_files)
    show ?thesis
    proof (cases fs_files)
      case (Cons f fl)
      with Inr "1.prems" have "fs'' = fs" by (simp add: deleteEmptyDirs_stop)
      with Inr Cons have "ascend fs dir 0 = Some (fs'', dir) \<and> readdir fs'' dir = Inr (f # fl)" by simp
      then show ?thesis by blast
    next
      case Nil
      show ?thesis
      proof (cases "rmdir fs dir")
        case (Inl e)
        with Inr Nil "1.prems" show ?thesis by (simp add: deleteEmptyDirs_rmdir_error)
      next
        case rm: (Inr fs1)
        from Inr Nil have r: "readdir fs dir = Inr []" by simp
        from "1.prems" deleteEmptyDirs_up[OF r rm] have "deleteEmptyDirs fs1 (dirname dir) = Inr fs''"
          by simp
        from "1.IH"[OF Inr _ rm this] Nil obtain n dir' f fl where
          a: "ascend fs1 (dirname dir) n = Some (fs'', dir')" "readdir fs'' dir' = Inr (f # fl)"
          by auto
        from a(1) r rm have "ascend fs dir (Suc n) = Some (fs'', dir')" by simp
        with a(2) show ?thesis by blast
      qed
    qed
  qed
qed

lemma polling_continues:
  "list_all (\<lambda>r. \<not> aborted r \<and> readFile r = Inl ENOENT) rs \<Longrightarrow> waitForPortFile n rs = None"
  by (induction rs) simp_all

text \<open>The pruning example of the specification: with empty \<open>a/b/c\<close> below a directory
  \<open>a\<close> that holds a file, pruning from \<open>c\<close> removes \<open>c\<close> and \<open>b\<close> and stops at \<open>a\<close>.\<close>

lemma pruning_example:
  "deleteEmptyDirs
     \<lparr>dirs = [[], [''a''], [''a'', ''b''], [''a'', ''b'', ''c'']], files = [[''a'', ''f'']], denied = []\<rparr>
     [''a'', ''b'', ''c''] =
   Inr \<lparr>dirs = [[], [''a'']], files = [[''a'', ''f'']], denied = []\<rparr>"
  by (simp add: deleteEmptyDirs.simps[of _ "[''a'', ''b'', ''c'']"] deleteEmptyDirs.simps[of _ "[''a'', ''b'']"]
      deleteEmptyDirs.simps[of _ "[''a'']"] readdir_def rmdir_def entries_def dirname_def)

text \<open>A path below a regular file is not a directory.\<close>

lemma readdir_below_file:
  "readdir \<lparr>dirs = [[]], files = [[''f'']], denied = []\<rparr> [''f'', ''x''] = Inl ENOTDIR"
  by (simp add: readdir_def)

section \<open>The keys of the maps after a pass\<close>

lemma keys_update: "fst ` set (AList.update k v al) = insert k (fst ` set al)"
  by (simp add: dom_update)

lemma keys_delete: "fst ` set (AList.delete k al) = fst ` set al - {k}"
proof -
  have "set (map fst (AList.delete k al)) = set (map fst al) - {k}"
    by (simp only: delete_keys set_removeAll)
  then show ?thesis by simp
qed

lemma keys_renameKey:
  "fst ` set (renameKey uri newPath obj k) =
     (if startsWith k uri then insert (updatedOf newPath (relativeOf uri k)) (fst ` set obj) - {k}
      else fst ` set obj)"
  by (simp add: renameKey_def keys_update keys_delete)

lemma keys_rekey:
  "fst ` set (rekey uri newPath obj e) =
     (if startsWith (fst e) uri then insert (updatedOf newPath (relativeOf uri (fst e))) (fst ` set obj) - {fst e}
      else fst ` set obj)"
  by (simp add: rekey_def keys_update keys_delete)

text \<open>No rewritten key is itself a matching key of the snapshot: then the renamings do not
  undo one another, and the keys after the loop are those that did not match and the new
  names of those that did.\<close>

lemma keys_foldl_renameKey:
  assumes "(\<lambda>k. updatedOf newPath (relativeOf uri k)) ` {k \<in> set ks. startsWith k uri}
             \<inter> {k \<in> set ks. startsWith k uri} = {}"
  shows "fst ` set (foldl (renameKey uri newPath) obj ks) =
     (fst ` set obj - {k \<in> set ks. startsWith k uri})
     \<union> (\<lambda>k. updatedOf newPath (relativeOf uri k)) ` {k \<in> set ks. startsWith k uri}"
  using assms
proof (induction ks arbitrary: obj)
  case Nil
  show ?case by simp
next
  case (Cons k ks)
  let ?rw = "\<lambda>k. updatedOf newPath (relativeOf uri k)"
  from Cons.prems have sub: "?rw ` {k \<in> set ks. startsWith k uri} \<inter> {k \<in> set ks. startsWith k uri} = {}"
    by auto
  note ih = Cons.IH[OF sub, of "renameKey uri newPath obj k"]
  show ?case
  proof (cases "startsWith k uri")
    case False
    then show ?thesis
      unfolding foldl_Cons ih keys_renameKey by auto
  next
    case True
    with Cons.prems have n: "?rw k \<notin> {k' \<in> set (k # ks). startsWith k' uri}" by auto
    with True have ne: "?rw k \<noteq> k" and nin: "?rw k \<notin> {k' \<in> set ks. startsWith k' uri}" by auto
    show ?thesis
      unfolding foldl_Cons ih keys_renameKey using True ne nin by auto
  qed
qed

lemma keys_foldl_rekey:
  assumes "(\<lambda>k. updatedOf newPath (relativeOf uri k)) ` {k \<in> set (map fst es). startsWith k uri}
             \<inter> {k \<in> set (map fst es). startsWith k uri} = {}"
  shows "fst ` set (foldl (rekey uri newPath) obj es) =
     (fst ` set obj - {k \<in> set (map fst es). startsWith k uri})
     \<union> (\<lambda>k. updatedOf newPath (relativeOf uri k)) ` {k \<in> set (map fst es). startsWith k uri}"
  using assms
proof (induction es arbitrary: obj)
  case Nil
  show ?case by simp
next
  case (Cons e es)
  let ?rw = "\<lambda>k. updatedOf newPath (relativeOf uri k)"
  from Cons.prems
  have sub: "?rw ` {k \<in> set (map fst es). startsWith k uri} \<inter> {k \<in> set (map fst es). startsWith k uri} = {}"
    by auto
  note ih = Cons.IH[OF sub, of "rekey uri newPath obj e"]
  show ?case
  proof (cases "startsWith (fst e) uri")
    case False
    then show ?thesis
      unfolding foldl_Cons ih keys_rekey by auto
  next
    case True
    with Cons.prems have n: "?rw (fst e) \<notin> {k' \<in> set (map fst (e # es)). startsWith k' uri}" by auto
    with True have ne: "?rw (fst e) \<noteq> fst e"
      and nin: "?rw (fst e) \<notin> {k' \<in> set (map fst es). startsWith k' uri}" by auto
    show ?thesis
      unfolding foldl_Cons ih keys_rekey using True ne nin by (auto; force)
  qed
qed

lemma keys_deref: "fst ` set (deref obj heap) = fst ` set obj"
  by (force simp: deref_def)

lemma keys_alloc: "map fst (fst (alloc al)) = map fst al"
  by (simp add: alloc_def)

lemma keys_patchMap:
  assumes "(\<lambda>k. updatedOf newPath (relativeOf uri k)) ` {k \<in> set (map fst al). startsWith k uri}
             \<inter> {k \<in> set (map fst al). startsWith k uri} = {}"
  shows "fst ` set (fst (patchMap uri newPath al p)) =
     (fst ` set al - {k \<in> set (map fst al). startsWith k uri})
     \<union> (\<lambda>k. updatedOf newPath (relativeOf uri k)) ` {k \<in> set (map fst al). startsWith k uri}"
proof -
  have a: "(\<lambda>k. updatedOf newPath (relativeOf uri k)) ` {k \<in> set (map fst (fst (alloc al))). startsWith k uri}
             \<inter> {k \<in> set (map fst (fst (alloc al))). startsWith k uri} = {}"
    using assms by (simp only: keys_alloc)
  have b: "fst ` set (fst (alloc al)) = fst ` set al"
    using keys_alloc[of al] by (metis set_map)
  show ?thesis
    unfolding patchMap_closed fst_conv keys_deref keys_foldl_rekey[OF a] keys_alloc b ..
qed

text \<open>When every matching key is gone and its new name is there, no new name is a matching
  key.\<close>

lemma renamed_all_no_clash:
  assumes "\<forall>k\<in>M. f k \<in> K \<and> k \<notin> K"
  shows "f ` M \<inter> M = {}"
  using assms by blast

lemma relocateBuildInfo_maps:
  "fileInfos (program (fst (relocateBuildInfo oldPath newPath bi sf))) =
     foldl (renameKey (workPathUri oldPath) newPath) (fileInfos (program bi)) (map fst (fileInfos (program bi)))"
  "referencedMap (program (fst (relocateBuildInfo oldPath newPath bi sf))) =
     fst (patchMap (workPathUri oldPath) newPath (referencedMap (program bi)) (None, False))"
  "exportedModulesMap (program (fst (relocateBuildInfo oldPath newPath bi sf))) =
     fst (patchMap (workPathUri oldPath) newPath (exportedModulesMap (program bi)) (None, False))"
  "fileNames (program (fst (relocateBuildInfo oldPath newPath bi sf))) =
     map_option (map (rewriteVal (workPathUri oldPath) newPath)) (fileNames (program bi))"
  "semanticDiagnosticsPerFile (program (fst (relocateBuildInfo oldPath newPath bi sf))) =
     map_option (map (rewriteVal (workPathUri oldPath) newPath)) (semanticDiagnosticsPerFile (program bi))"
  "bi_version (fst (relocateBuildInfo oldPath newPath bi sf)) = bi_version bi"
  by (simp_all add: relocateBuildInfo_closed)

subsection \<open>The maps after a pass whose renamed keys collide with none\<close>

lemma map_of_rekey:
  "map_of (rekey uri newPath obj e) =
     (if startsWith (fst e) uri
      then ((map_of obj)(updatedOf newPath (relativeOf uri (fst e)) \<mapsto> snd e))(fst e := None)
      else map_of obj)"
  by (simp add: rekey_def update_conv' delete_conv')

lemma map_of_renameKey:
  "map_of (renameKey uri newPath obj k) =
     (if startsWith k uri
      then ((map_of obj)(updatedOf newPath (relativeOf uri k) \<mapsto> js_get obj k))(k := None)
      else map_of obj)"
  by (simp add: renameKey_def update_conv' delete_conv')

lemma distinct_foldl_rekey:
  "distinct (map fst obj) \<Longrightarrow> distinct (map fst (foldl (rekey uri newPath) obj es))"
  by (induction es arbitrary: obj) (simp_all add: rekey_def distinct_update distinct_delete)

lemma distinct_foldl_renameKey:
  "distinct (map fst obj) \<Longrightarrow> distinct (map fst (foldl (renameKey uri newPath) obj ks))"
  by (induction ks arbitrary: obj) (simp_all add: renameKey_def distinct_update distinct_delete)

lemma foldl_rekey_map_of:
  assumes "distinct (map fst es)"
    and "inj_on (\<lambda>k. updatedOf newPath (relativeOf uri k)) {k \<in> fst ` set es. startsWith k uri}"
    and "(\<lambda>k. updatedOf newPath (relativeOf uri k)) ` {k \<in> fst ` set es. startsWith k uri} \<inter> fst ` set es = {}"
  shows "(\<forall>k r. (k, r) \<in> set es \<and> startsWith k uri \<longrightarrow>
            map_of (foldl (rekey uri newPath) obj es) (updatedOf newPath (relativeOf uri k)) = Some r)
    \<and> (\<forall>k'. k' \<notin> (\<lambda>k. updatedOf newPath (relativeOf uri k)) ` {k \<in> fst ` set es. startsWith k uri} \<longrightarrow>
            map_of (foldl (rekey uri newPath) obj es) k' =
              (if k' \<in> fst ` set es \<and> startsWith k' uri then None else map_of obj k'))"
  using assms
proof (induction es arbitrary: obj)
  case Nil
  show ?case by simp
next
  case (Cons e es)
  let ?rw = "\<lambda>k. updatedOf newPath (relativeOf uri k)"
  let ?M = "{k \<in> fst ` set (e # es). startsWith k uri}"
  let ?M' = "{k \<in> fst ` set es. startsWith k uri}"
  let ?obj1 = "rekey uri newPath obj e"
  let ?fin = "foldl (rekey uri newPath) ?obj1 es"
  obtain k0 r0 where e: "e = (k0, r0)" by (cases e)
  have sub: "?M' \<subseteq> ?M" by auto
  have d: "distinct (map fst es)" and k0: "k0 \<notin> fst ` set es"
    using Cons.prems(1) by (simp_all add: e)
  have inj': "inj_on ?rw ?M'" by (rule inj_on_subset[OF Cons.prems(2) sub])
  have fr': "?rw ` ?M' \<inter> fst ` set es = {}" using Cons.prems(3) by auto
  note ih = Cons.IH[OF d inj' fr', of ?obj1]
  have ih1: "map_of ?fin (?rw k) = Some r" if "(k, r) \<in> set es" "startsWith k uri" for k r
    using ih that by blast
  have ih2: "map_of ?fin k' = (if k' \<in> fst ` set es \<and> startsWith k' uri then None else map_of ?obj1 k')"
    if "k' \<notin> ?rw ` ?M'" for k'
    using ih that by blast
  have head: "map_of ?fin (?rw k0) = Some r0" if m: "startsWith k0 uri"
  proof -
    have k0M: "k0 \<in> ?M" using m by (simp add: e)
    have a: "?rw k0 \<notin> ?rw ` ?M'"
    proof
      assume "?rw k0 \<in> ?rw ` ?M'"
      then obtain k2 where k2: "k2 \<in> ?M'" "?rw k0 = ?rw k2" by auto
      with sub have "k2 \<in> ?M" by auto
      with Cons.prems(2) k0M k2(2) have "k0 = k2" by (auto dest: inj_onD)
      with k2(1) k0 show False by auto
    qed
    have "?rw k0 \<notin> fst ` set (e # es)" using Cons.prems(3) k0M by blast
    then have b: "?rw k0 \<notin> fst ` set es" "?rw k0 \<noteq> k0" by (auto simp: e)
    have "map_of ?fin (?rw k0) = map_of ?obj1 (?rw k0)"
      using ih2[OF a] b(1) by simp
    also have "\<dots> = Some r0"
      using b(2) m by (simp add: map_of_rekey e)
    finally show ?thesis .
  qed
  have part1: "map_of ?fin (?rw k) = Some r" if "(k, r) \<in> set (e # es)" "startsWith k uri" for k r
    using that head ih1 by (auto simp: e)
  have part2: "map_of ?fin k' = (if k' \<in> fst ` set (e # es) \<and> startsWith k' uri then None else map_of obj k')"
    if n: "k' \<notin> ?rw ` ?M" for k'
  proof -
    from n sub have n': "k' \<notin> ?rw ` ?M'" by blast
    note fin = ih2[OF n']
    show ?thesis
    proof (cases "startsWith k0 uri")
      case True
      then have "k0 \<in> ?M" by (simp add: e)
      with n have "k' \<noteq> ?rw k0" by blast
      then show ?thesis
        unfolding fin using True by (auto simp: map_of_rekey e)
    next
      case False
      then show ?thesis
        unfolding fin by (auto simp: map_of_rekey e)
    qed
  qed
  show ?case
    unfolding foldl_Cons using part1 part2 by blast
qed


lemma foldl_renameKey_map_of:
  assumes "distinct ks"
    and "inj_on (\<lambda>k. updatedOf newPath (relativeOf uri k)) {k \<in> set ks. startsWith k uri}"
    and "(\<lambda>k. updatedOf newPath (relativeOf uri k)) ` {k \<in> set ks. startsWith k uri} \<inter> set ks = {}"
  shows "(\<forall>k. k \<in> set ks \<and> startsWith k uri \<longrightarrow>
            map_of (foldl (renameKey uri newPath) obj ks) (updatedOf newPath (relativeOf uri k)) =
              Some (js_get obj k))
    \<and> (\<forall>k'. k' \<notin> (\<lambda>k. updatedOf newPath (relativeOf uri k)) ` {k \<in> set ks. startsWith k uri} \<longrightarrow>
            map_of (foldl (renameKey uri newPath) obj ks) k' =
              (if k' \<in> set ks \<and> startsWith k' uri then None else map_of obj k'))"
  using assms
proof (induction ks arbitrary: obj)
  case Nil
  show ?case by simp
next
  case (Cons k0 ks)
  let ?rw = "\<lambda>k. updatedOf newPath (relativeOf uri k)"
  let ?M = "{k \<in> set (k0 # ks). startsWith k uri}"
  let ?M' = "{k \<in> set ks. startsWith k uri}"
  let ?obj1 = "renameKey uri newPath obj k0"
  let ?fin = "foldl (renameKey uri newPath) ?obj1 ks"
  have sub: "?M' \<subseteq> ?M" by auto
  have d: "distinct ks" and k0: "k0 \<notin> set ks"
    using Cons.prems(1) by simp_all
  have inj': "inj_on ?rw ?M'" by (rule inj_on_subset[OF Cons.prems(2) sub])
  have fr': "?rw ` ?M' \<inter> set ks = {}" using Cons.prems(3) by auto
  note ih = Cons.IH[OF d inj' fr', of ?obj1]
  have ih1: "map_of ?fin (?rw k) = Some (js_get ?obj1 k)" if "k \<in> set ks" "startsWith k uri" for k
    using ih that by blast
  have ih2: "map_of ?fin k' = (if k' \<in> set ks \<and> startsWith k' uri then None else map_of ?obj1 k')"
    if "k' \<notin> ?rw ` ?M'" for k'
    using ih that by blast
  have keep: "js_get ?obj1 k = js_get obj k" if "k \<in> set ks" for k
  proof (cases "startsWith k0 uri")
    case False
    then show ?thesis by (simp add: renameKey_def)
  next
    case True
    then have "k0 \<in> ?M" by simp
    with Cons.prems(3) have "?rw k0 \<notin> set (k0 # ks)" by blast
    with that have "k \<noteq> ?rw k0" by auto
    moreover from that k0 have "k \<noteq> k0" by auto
    ultimately have "map_of ?obj1 k = map_of obj k"
      by (simp add: map_of_renameKey)
    then show ?thesis by (simp add: js_get_def)
  qed
  have head: "map_of ?fin (?rw k0) = Some (js_get obj k0)" if m: "startsWith k0 uri"
  proof -
    have k0M: "k0 \<in> ?M" using m by simp
    have a: "?rw k0 \<notin> ?rw ` ?M'"
    proof
      assume "?rw k0 \<in> ?rw ` ?M'"
      then obtain k2 where k2: "k2 \<in> ?M'" "?rw k0 = ?rw k2" by auto
      with sub have "k2 \<in> ?M" by auto
      with Cons.prems(2) k0M k2(2) have "k0 = k2" by (auto dest: inj_onD)
      with k2(1) k0 show False by auto
    qed
    have "?rw k0 \<notin> set (k0 # ks)" using Cons.prems(3) k0M by blast
    then have b: "?rw k0 \<notin> set ks" "?rw k0 \<noteq> k0" by auto
    have "map_of ?fin (?rw k0) = map_of ?obj1 (?rw k0)"
      using ih2[OF a] b(1) by simp
    also have "\<dots> = Some (js_get obj k0)"
      using b(2) m by (simp add: map_of_renameKey)
    finally show ?thesis .
  qed
  have part1: "map_of ?fin (?rw k) = Some (js_get obj k)" if "k \<in> set (k0 # ks)" "startsWith k uri" for k
    using that head ih1 keep by auto
  have part2: "map_of ?fin k' = (if k' \<in> set (k0 # ks) \<and> startsWith k' uri then None else map_of obj k')"
    if n: "k' \<notin> ?rw ` ?M" for k'
  proof -
    from n sub have n': "k' \<notin> ?rw ` ?M'" by blast
    note fin = ih2[OF n']
    show ?thesis
    proof (cases "startsWith k0 uri")
      case True
      then have "k0 \<in> ?M" by simp
      with n have "k' \<noteq> ?rw k0" by blast
      then show ?thesis
        unfolding fin using True by (auto simp: map_of_renameKey)
    next
      case False
      then show ?thesis
        unfolding fin by (auto simp: map_of_renameKey)
    qed
  qed
  show ?case
    unfolding foldl_Cons using part1 part2 by blast
qed

lemma map_of_deref: "map_of (deref obj heap) k = map_option (\<lambda>r. heap ! r) (map_of obj k)"
  by (induction obj) (auto simp: deref_def)

lemma map_fst_deref: "map fst (deref obj heap) = map fst obj"
  by (induction obj) (auto simp: deref_def)

lemma alloc_entry:
  assumes "(k, l) \<in> set al"
  shows "\<exists>i < length al. (k, i) \<in> set (fst (alloc al)) \<and> map snd al ! i = l"
proof -
  from assms obtain i where i: "i < length al" "al ! i = (k, l)"
    by (auto simp: in_set_conv_nth)
  then have "(k, i) \<in> set (zip (map fst al) [0..<length al])"
    by (auto simp: in_set_zip intro!: exI[of _ i])
  with i show ?thesis by (auto simp: alloc_def)
qed

lemma keys_as_dom: "fst ` set al = dom (map_of al)"
  by (simp add: dom_map_of_conv_image_fst)

lemma patchMap_entries:
  assumes "distinct (map fst al)"
    and "inj_on (\<lambda>k. updatedOf newPath (relativeOf uri k)) {k \<in> fst ` set al. startsWith k uri}"
    and "(\<lambda>k. updatedOf newPath (relativeOf uri k)) ` {k \<in> fst ` set al. startsWith k uri} \<inter> fst ` set al = {}"
  shows "\<forall>k l. (k, l) \<in> set al \<longrightarrow>
            map_of (fst (patchMap uri newPath al p)) (renamed uri newPath k) = Some (map (rewriteVal uri newPath) l)"
    and "fst ` set (fst (patchMap uri newPath al p)) = renamed uri newPath ` fst ` set al"
    and "distinct (map fst (fst (patchMap uri newPath al p)))"
proof -
  let ?rw = "\<lambda>k. updatedOf newPath (relativeOf uri k)"
  let ?obj0 = "fst (alloc al)"
  let ?fin = "foldl (rekey uri newPath) ?obj0 ?obj0"
  let ?heap = "map (map (rewriteVal uri newPath)) (map snd al)"
  let ?M = "{k \<in> fst ` set al. startsWith k uri}"
  have keys0: "fst ` set ?obj0 = fst ` set al"
    using keys_alloc[of al] by (metis set_map)
  have d0: "distinct (map fst ?obj0)" using assms(1) by (simp only: keys_alloc)
  have res: "fst (patchMap uri newPath al p) = deref ?fin ?heap"
    by (simp add: patchMap_closed)
  note gl = foldl_rekey_map_of[of ?obj0 newPath uri ?obj0, unfolded keys0, OF d0 assms(2,3)]
  have g1: "map_of ?fin (?rw k) = Some r" if "(k, r) \<in> set ?obj0" "startsWith k uri" for k r
    using gl that by blast
  have g2: "map_of ?fin k' = (if k' \<in> fst ` set al \<and> startsWith k' uri then None else map_of ?obj0 k')"
    if "k' \<notin> ?rw ` ?M" for k'
    using gl that by blast
  show "\<forall>k l. (k, l) \<in> set al \<longrightarrow>
            map_of (fst (patchMap uri newPath al p)) (renamed uri newPath k) = Some (map (rewriteVal uri newPath) l)"
  proof (intro allI impI)
    fix k l assume kl: "(k, l) \<in> set al"
    from alloc_entry[OF kl] obtain i where i: "i < length al" "(k, i) \<in> set ?obj0" "map snd al ! i = l"
      by blast
    have hp: "?heap ! i = map (rewriteVal uri newPath) l" using i(1,3) by simp
    have "map_of ?fin (renamed uri newPath k) = Some i"
    proof (cases "startsWith k uri")
      case True
      then show ?thesis using g1[OF i(2)] by (simp add: renamed_def)
    next
      case False
      have "k \<in> fst ` set al" using kl by force
      with assms(3) have "k \<notin> ?rw ` ?M" by blast
      from g2[OF this] False have "map_of ?fin k = map_of ?obj0 k" by simp
      also have "\<dots> = Some i" using d0 i(2) by simp
      finally show ?thesis using False by (simp add: renamed_def)
    qed
    then show "map_of (fst (patchMap uri newPath al p)) (renamed uri newPath k) = Some (map (rewriteVal uri newPath) l)"
      unfolding res map_of_deref using hp by (simp del: map_map)
  qed
  have domfin: "dom (map_of ?fin) = renamed uri newPath ` fst ` set al"
  proof (intro set_eqI iffI)
    fix k' assume a: "k' \<in> dom (map_of ?fin)"
    show "k' \<in> renamed uri newPath ` fst ` set al"
    proof (cases "k' \<in> ?rw ` ?M")
      case True
      then show ?thesis by (auto simp: renamed_def image_iff)
    next
      case False
      from g2[OF False] a have n: "\<not> (k' \<in> fst ` set al \<and> startsWith k' uri)" and "k' \<in> dom (map_of ?obj0)"
        by (auto simp: domIff split: if_splits)
      then have "k' \<in> fst ` set al" using keys0 by (simp add: keys_as_dom)
      with n have "renamed uri newPath k' = k'" by (simp add: renamed_def)
      with \<open>k' \<in> fst ` set al\<close> show ?thesis by (metis imageI)
    qed
  next
    fix k' assume "k' \<in> renamed uri newPath ` fst ` set al"
    then obtain k where k: "k \<in> fst ` set al" "k' = renamed uri newPath k" by auto
    then obtain l where kl: "(k, l) \<in> set al" by auto
    from alloc_entry[OF kl] obtain i where i: "(k, i) \<in> set ?obj0" by blast
    show "k' \<in> dom (map_of ?fin)"
    proof (cases "startsWith k uri")
      case True
      then show ?thesis using g1[OF i] k(2) by (auto simp: renamed_def)
    next
      case False
      with assms(3) k(1) have "k \<notin> ?rw ` ?M" by blast
      from g2[OF this] False have "map_of ?fin k = map_of ?obj0 k" by simp
      also have "\<dots> = Some i" using d0 i by simp
      finally show ?thesis using False k(2) by (auto simp: renamed_def)
    qed
  qed
  show "fst ` set (fst (patchMap uri newPath al p)) = renamed uri newPath ` fst ` set al"
    unfolding res keys_deref using domfin by (simp add: keys_as_dom)
  show "distinct (map fst (fst (patchMap uri newPath al p)))"
    unfolding res map_fst_deref by (rule distinct_foldl_rekey[OF d0])
qed


lemma renameKeys_entries:
  assumes "distinct (map fst fi)"
    and "inj_on (\<lambda>k. updatedOf newPath (relativeOf uri k)) {k \<in> fst ` set fi. startsWith k uri}"
    and "(\<lambda>k. updatedOf newPath (relativeOf uri k)) ` {k \<in> fst ` set fi. startsWith k uri} \<inter> fst ` set fi = {}"
  shows "\<forall>k v. (k, v) \<in> set fi \<longrightarrow>
            map_of (foldl (renameKey uri newPath) fi (map fst fi)) (renamed uri newPath k) = Some v"
    and "fst ` set (foldl (renameKey uri newPath) fi (map fst fi)) = renamed uri newPath ` fst ` set fi"
    and "distinct (map fst (foldl (renameKey uri newPath) fi (map fst fi)))"
proof -
  let ?rw = "\<lambda>k. updatedOf newPath (relativeOf uri k)"
  let ?fin = "foldl (renameKey uri newPath) fi (map fst fi)"
  let ?M = "{k \<in> fst ` set fi. startsWith k uri}"
  have ks: "set (map fst fi) = fst ` set fi" by simp
  note gl = foldl_renameKey_map_of[of "map fst fi" newPath uri fi, unfolded ks, OF assms]
  have g1: "map_of ?fin (?rw k) = Some (js_get fi k)" if "k \<in> fst ` set fi" "startsWith k uri" for k
    using gl that by blast
  have g2: "map_of ?fin k' = (if k' \<in> fst ` set fi \<and> startsWith k' uri then None else map_of fi k')"
    if "k' \<notin> ?rw ` ?M" for k'
    using gl that by blast
  have val: "map_of ?fin (renamed uri newPath k) = Some v" if kv: "(k, v) \<in> set fi" for k v
  proof -
    have kin: "k \<in> fst ` set fi" using kv by force
    have mo: "map_of fi k = Some v" using assms(1) kv by simp
    show ?thesis
    proof (cases "startsWith k uri")
      case True
      then show ?thesis using g1[OF kin] mo by (simp add: renamed_def js_get_def)
    next
      case False
      from assms(3) kin have "k \<notin> ?rw ` ?M" by blast
      from g2[OF this] False mo show ?thesis by (simp add: renamed_def)
    qed
  qed
  then show "\<forall>k v. (k, v) \<in> set fi \<longrightarrow> map_of ?fin (renamed uri newPath k) = Some v"
    by blast
  have "dom (map_of ?fin) = renamed uri newPath ` fst ` set fi"
  proof (intro set_eqI iffI)
    fix k' assume a: "k' \<in> dom (map_of ?fin)"
    show "k' \<in> renamed uri newPath ` fst ` set fi"
    proof (cases "k' \<in> ?rw ` ?M")
      case True
      then show ?thesis by (auto simp: renamed_def image_iff)
    next
      case False
      from g2[OF False] a have n: "\<not> (k' \<in> fst ` set fi \<and> startsWith k' uri)" and "k' \<in> dom (map_of fi)"
        by (auto simp: domIff split: if_splits)
      then have kin: "k' \<in> fst ` set fi" by (simp add: keys_as_dom)
      with n have "renamed uri newPath k' = k'" by (simp add: renamed_def)
      with kin show ?thesis by (metis imageI)
    qed
  next
    fix k' assume "k' \<in> renamed uri newPath ` fst ` set fi"
    then obtain k v where "(k, v) \<in> set fi" "k' = renamed uri newPath k" by auto
    with val show "k' \<in> dom (map_of ?fin)" by auto
  qed
  then show "fst ` set ?fin = renamed uri newPath ` fst ` set fi"
    by (simp add: keys_as_dom)
  show "distinct (map fst ?fin)"
    by (rule distinct_foldl_renameKey[OF assms(1)])
qed

text \<open>Two renamings of the keys of an association list that undo each other.\<close>

lemma roundtrip_map_of:
  assumes "distinct (map fst al)"
    and "\<forall>k v. (k, v) \<in> set al \<longrightarrow> map_of al1 (f k) = Some (vf v)"
    and "\<forall>k v. (k, v) \<in> set al1 \<longrightarrow> map_of al2 (g k) = Some (vg v)"
    and "fst ` set al1 = f ` fst ` set al"
    and "fst ` set al2 = g ` fst ` set al1"
    and "\<forall>k \<in> fst ` set al. g (f k) = k"
    and "\<forall>v \<in> snd ` set al. vg (vf v) = v"
  shows "map_of al2 = map_of al"
proof (rule ext)
  fix k
  show "map_of al2 k = map_of al k"
  proof (cases "k \<in> fst ` set al")
    case True
    then obtain v where kv: "(k, v) \<in> set al" by auto
    with assms(2) have "map_of al1 (f k) = Some (vf v)" by blast
    then have "(f k, vf v) \<in> set al1" by (rule map_of_SomeD)
    with assms(3) have "map_of al2 (g (f k)) = Some (vg (vf v))" by blast
    moreover have "g (f k) = k" using assms(6) True by blast
    moreover have "vg (vf v) = v" using assms(7) kv by force
    moreover have "map_of al k = Some v" using assms(1) kv by simp
    ultimately show ?thesis by simp
  next
    case False
    have "fst ` set al2 = fst ` set al"
      unfolding assms(5) assms(4) using assms(6) by (force simp: image_iff)
    with False have "k \<notin> fst ` set al2" by simp
    with False show ?thesis by (simp add: keys_as_dom domIff)
  qed
qed

subsection \<open>Strings for which a relocation can be undone\<close>

lemma startsWith_updatedOf: "startsWith (updatedOf pathB rel) (workPathUri pathB)"
  by (simp add: startsWith_def updatedOf_def workPathUri_def)

lemma startsWith_split: "startsWith s p \<Longrightarrow> s = p @ drop (length p) s"
  by (metis append_take_drop_id startsWith_def)

lemma relocate_back:
  assumes "startsWith s (workPathUri pathA @ ''/'')"
  shows "updatedOf pathA (relativeOf (workPathUri pathB) (updatedOf pathB (relativeOf (workPathUri pathA) s))) = s"
proof -
  obtain t where s: "s = workPathUri pathA @ ''/'' @ t"
    using startsWith_split[OF assms] by (metis append.assoc)
  have 2: "updatedOf p t = workPathUri p @ ''/'' @ t" for p
    by (simp add: updatedOf_def workPathUri_def)
  have 3: "relativeOf (workPathUri p) (workPathUri p @ ''/'' @ t) = t" for p
    by (simp add: relativeOf_def substring_def)
  show ?thesis unfolding s by (simp only: 2 3)
qed

lemma safe_renamed_back:
  assumes "roundTripSafe pathA pathB s"
  shows "renamed (workPathUri pathB) pathA (renamed (workPathUri pathA) pathB s) = s"
proof (cases "startsWith s (workPathUri pathA)")
  case True
  with assms have "startsWith s (workPathUri pathA @ ''/'')" by (simp add: roundTripSafe_def)
  from relocate_back[OF this, of pathB] True show ?thesis
    by (simp add: renamed_def startsWith_updatedOf)
next
  case False
  with assms show ?thesis by (simp add: renamed_def roundTripSafe_def)
qed

lemma safe_renamed_matches:
  assumes "roundTripSafe pathA pathB s"
  shows "startsWith (renamed (workPathUri pathA) pathB s) (workPathUri pathB) = startsWith s (workPathUri pathA)"
  using assms by (simp add: renamed_def roundTripSafe_def startsWith_updatedOf)

lemma rewriteVal_renamed: "rewriteVal uri newPath (JStr s) = JStr (renamed uri newPath s)"
  by (simp add: renamed_def)

lemma safe_rewrite_back:
  assumes "\<forall>s\<in>set (stringsOf l). roundTripSafe pathA pathB s"
  shows "map (rewriteVal (workPathUri pathB) pathA) (map (rewriteVal (workPathUri pathA) pathB) l) = l"
  using assms
proof (induction l)
  case Nil
  show ?case by simp
next
  case (Cons v l)
  show ?case
  proof (cases v)
    case (JStr s)
    with Cons.prems have "roundTripSafe pathA pathB s" by simp
    from safe_renamed_back[OF this] Cons show ?thesis
      by (simp only: JStr list.map rewriteVal_renamed stringsOf_simps) simp
  qed (use Cons in simp_all)
qed

lemma safe_forward:
  assumes "\<forall>k\<in>K. roundTripSafe pathA pathB k"
  shows "inj_on (\<lambda>k. updatedOf pathB (relativeOf (workPathUri pathA) k)) {k \<in> K. startsWith k (workPathUri pathA)}"
    and "(\<lambda>k. updatedOf pathB (relativeOf (workPathUri pathA) k)) ` {k \<in> K. startsWith k (workPathUri pathA)} \<inter> K = {}"
proof -
  let ?rw = "\<lambda>k. updatedOf pathB (relativeOf (workPathUri pathA) k)"
  let ?undo = "\<lambda>k. updatedOf pathA (relativeOf (workPathUri pathB) k)"
  have b: "?undo (?rw k) = k" if "k \<in> K" "startsWith k (workPathUri pathA)" for k
    using assms that relocate_back[of k pathA pathB] by (simp add: roundTripSafe_def)
  show "inj_on ?rw {k \<in> K. startsWith k (workPathUri pathA)}"
    by (rule inj_on_inverseI[of _ ?undo]) (simp add: b)
  show "?rw ` {k \<in> K. startsWith k (workPathUri pathA)} \<inter> K = {}"
    using assms startsWith_updatedOf[of pathB] by (auto simp: roundTripSafe_def)
qed

lemma safe_backward:
  assumes "\<forall>k\<in>K. roundTripSafe pathA pathB k"
  shows "inj_on (\<lambda>k. updatedOf pathA (relativeOf (workPathUri pathB) k))
           {k \<in> renamed (workPathUri pathA) pathB ` K. startsWith k (workPathUri pathB)}"
    and "(\<lambda>k. updatedOf pathA (relativeOf (workPathUri pathB) k))
           ` {k \<in> renamed (workPathUri pathA) pathB ` K. startsWith k (workPathUri pathB)}
         \<inter> renamed (workPathUri pathA) pathB ` K = {}"
proof -
  let ?rw = "\<lambda>k. updatedOf pathB (relativeOf (workPathUri pathA) k)"
  let ?undo = "\<lambda>k. updatedOf pathA (relativeOf (workPathUri pathB) k)"
  let ?M1 = "{k \<in> renamed (workPathUri pathA) pathB ` K. startsWith k (workPathUri pathB)}"
  have m1: "\<exists>k\<in>K. startsWith k (workPathUri pathA) \<and> k' = ?rw k \<and> ?undo k' = k" if "k' \<in> ?M1" for k'
  proof -
    from that obtain k where k: "k \<in> K" "k' = renamed (workPathUri pathA) pathB k"
      "startsWith k' (workPathUri pathB)" by auto
    with assms have safe: "roundTripSafe pathA pathB k" by blast
    from safe_renamed_matches[OF safe] k have m: "startsWith k (workPathUri pathA)" by simp
    with k have eq: "k' = ?rw k" by (simp add: renamed_def)
    from safe m have "startsWith k (workPathUri pathA @ ''/'')" by (simp add: roundTripSafe_def)
    from relocate_back[OF this, of pathB] eq have "?undo k' = k" by simp
    with k(1) m eq show ?thesis by blast
  qed
  show "inj_on ?undo ?M1"
  proof (rule inj_onI)
    fix x y assume "x \<in> ?M1" "y \<in> ?M1" "?undo x = ?undo y"
    with m1[of x] m1[of y] show "x = y" by metis
  qed
  show "?undo ` ?M1 \<inter> renamed (workPathUri pathA) pathB ` K = {}"
  proof (rule ccontr)
    assume "?undo ` ?M1 \<inter> renamed (workPathUri pathA) pathB ` K \<noteq> {}"
    then obtain k' k2 where k': "k' \<in> ?M1" and k2: "k2 \<in> K" and eq: "?undo k' = renamed (workPathUri pathA) pathB k2"
      by auto
    from m1[OF k'] obtain k where k: "k \<in> K" "startsWith k (workPathUri pathA)" "?undo k' = k" by blast
    from assms k(1) have nb: "\<not> startsWith k (workPathUri pathB)" by (simp add: roundTripSafe_def)
    show False
    proof (cases "startsWith k2 (workPathUri pathA)")
      case True
      then have "renamed (workPathUri pathA) pathB k2 = ?rw k2" by (simp add: renamed_def)
      with eq k(3) have "k = ?rw k2" by simp
      with nb startsWith_updatedOf[of pathB] show False by simp
    next
      case False
      then have "renamed (workPathUri pathA) pathB k2 = k2" by (simp add: renamed_def)
      with eq k(3) have "k = k2" by simp
      with False k(2) show False by simp
    qed
  qed
qed

lemma patchMap_roundtrip:
  assumes "distinct (map fst al)"
    and "\<forall>k\<in>fst ` set al. roundTripSafe pathA pathB k"
    and "\<forall>e\<in>set al. \<forall>s\<in>set (stringsOf (snd e)). roundTripSafe pathA pathB s"
  shows "map_of (fst (patchMap (workPathUri pathB) pathA (fst (patchMap (workPathUri pathA) pathB al p)) q)) = map_of al"
    and "distinct (map fst (fst (patchMap (workPathUri pathB) pathA (fst (patchMap (workPathUri pathA) pathB al p)) q)))"
proof -
  let ?al1 = "fst (patchMap (workPathUri pathA) pathB al p)"
  let ?al2 = "fst (patchMap (workPathUri pathB) pathA ?al1 q)"
  note f = safe_forward[OF assms(2)]
  note p1 = patchMap_entries[OF assms(1) f, of p]
  note b = safe_backward[OF assms(2), folded p1(2)]
  note p2 = patchMap_entries[OF p1(3) b, of q]
  have bk: "\<forall>k\<in>fst ` set al. renamed (workPathUri pathB) pathA (renamed (workPathUri pathA) pathB k) = k"
    using assms(2) safe_renamed_back by blast
  have vback: "\<forall>v\<in>snd ` set al. map (rewriteVal (workPathUri pathB) pathA) (map (rewriteVal (workPathUri pathA) pathB) v) = v"
    using assms(3) safe_rewrite_back by force
  show "map_of ?al2 = map_of al"
    by (rule roundtrip_map_of[OF assms(1) p1(1) p2(1) p1(2) p2(2) bk vback])
  show "distinct (map fst ?al2)" by (rule p2(3))
qed

lemma renameKeys_roundtrip:
  assumes "distinct (map fst fi)"
    and "\<forall>k\<in>fst ` set fi. roundTripSafe pathA pathB k"
  shows "map_of (foldl (renameKey (workPathUri pathB) pathA)
                   (foldl (renameKey (workPathUri pathA) pathB) fi (map fst fi))
                   (map fst (foldl (renameKey (workPathUri pathA) pathB) fi (map fst fi)))) = map_of fi"
    and "distinct (map fst (foldl (renameKey (workPathUri pathB) pathA)
                   (foldl (renameKey (workPathUri pathA) pathB) fi (map fst fi))
                   (map fst (foldl (renameKey (workPathUri pathA) pathB) fi (map fst fi)))))"
proof -
  let ?fi1 = "foldl (renameKey (workPathUri pathA) pathB) fi (map fst fi)"
  let ?fi2 = "foldl (renameKey (workPathUri pathB) pathA) ?fi1 (map fst ?fi1)"
  note f = safe_forward[OF assms(2)]
  note p1 = renameKeys_entries[OF assms(1) f]
  note b = safe_backward[OF assms(2), folded p1(2)]
  note p2 = renameKeys_entries[OF p1(3) b]
  have bk: "\<forall>k\<in>fst ` set fi. renamed (workPathUri pathB) pathA (renamed (workPathUri pathA) pathB k) = k"
    using assms(2) safe_renamed_back by blast
  have vback: "\<forall>v\<in>snd ` set fi. (\<lambda>v. v) ((\<lambda>v. v) v) = v" by simp
  show "map_of ?fi2 = map_of fi"
    by (rule roundtrip_map_of[where vf = "\<lambda>v. v" and vg = "\<lambda>v. v", OF assms(1) p1(1) p2(1) p1(2) p2(2) bk vback])
  show "distinct (map fst ?fi2)" by (rule p2(3))
qed

lemma optArray_roundtrip:
  assumes "\<forall>s\<in>set (stringsOf (optArray arr)). roundTripSafe pathA pathB s"
  shows "map_option (map (rewriteVal (workPathUri pathB) pathA))
           (map_option (map (rewriteVal (workPathUri pathA) pathB)) arr) = arr"
proof (cases arr)
  case None
  then show ?thesis by simp
next
  case (Some a)
  with assms have "\<forall>s\<in>set (stringsOf a). roundTripSafe pathA pathB s" by (simp add: optArray_def)
  from safe_rewrite_back[OF this] show ?thesis by (simp only: Some option.map)
qed

lemma patchMap_fst_indep: "fst (patchMap uri newPath al p) = fst (patchMap uri newPath al q)"
  by (simp add: patchMap_closed)

subsection \<open>The lists of a key+list map after a pass\<close>

lemma set_update_subset: "set (AList.update k v al) \<subseteq> insert (k, v) (set al)"
  by (induction al) auto

lemma set_delete_subset: "set (AList.delete k al) \<subseteq> set al"
  by (auto simp: AList.delete_eq)

lemma refs_rekey: "snd ` set (rekey uri newPath obj e) \<subseteq> insert (snd e) (snd ` set obj)"
proof (cases "startsWith (fst e) uri")
  case False
  then show ?thesis by (auto simp: rekey_def)
next
  case True
  let ?k' = "updatedOf newPath (relativeOf uri (fst e))"
  have "set (rekey uri newPath obj e) \<subseteq> insert (?k', snd e) (set obj)"
    using True set_delete_subset[of "fst e" "AList.update ?k' (snd e) obj"]
      set_update_subset[of ?k' "snd e" obj]
    by (auto simp: rekey_def)
  then show ?thesis by force
qed

lemma refs_foldl_rekey:
  "snd ` set (foldl (rekey uri newPath) obj es) \<subseteq> snd ` set obj \<union> snd ` set es"
proof (induction es arbitrary: obj)
  case Nil
  show ?case by simp
next
  case (Cons e es)
  from Cons.IH[of "rekey uri newPath obj e"] refs_rekey[of uri newPath obj e]
  show ?case by (simp only: foldl_Cons) auto
qed

lemma patchMap_lists:
  "snd ` set (fst (patchMap uri newPath al p)) \<subseteq> map (rewriteVal uri newPath) ` snd ` set al"
proof
  fix l' assume "l' \<in> snd ` set (fst (patchMap uri newPath al p))"
  then obtain k r where kr: "(k, r) \<in> set (foldl (rekey uri newPath) (fst (alloc al)) (fst (alloc al)))"
    and l': "l' = map (map (rewriteVal uri newPath)) (map snd al) ! r"
    by (auto simp: patchMap_closed deref_def)
  from kr refs_foldl_rekey[of uri newPath "fst (alloc al)" "fst (alloc al)"]
  have "r \<in> snd ` set (fst (alloc al))" by force
  then have r: "r < length al"
    by (auto simp: alloc_def in_set_zip)
  then have "l' = map (rewriteVal uri newPath) (snd (al ! r))" using l' by simp
  moreover have "snd (al ! r) \<in> snd ` set al" using r by simp
  ultimately show "l' \<in> map (rewriteVal uri newPath) ` snd ` set al" by blast
qed

lemma patchRefs_single:
  "patchRefs uri newPath [(k, r)] obj heap p =
     (rekey uri newPath obj (k, r), heap[r := map (rewriteVal uri newPath) (heap ! r)],
      (map_option (\<lambda>S. S \<union> set (relativesOf uri (heap ! r)) \<union> set (relatives uri [k])) (fst p),
       snd p \<or> list_ex (matchesVal uri) (heap ! r) \<or> startsWith k uri))"
  by (cases p; cases "fst p")
     (auto simp: patchArray_closed rekey_def relatives_def Un_ac)

lemma patchMap_single:
  "fst (patchMap uri newPath [(k, l)] p) =
     (if startsWith k uri then
        (if updatedOf newPath (relativeOf uri k) = k then []
         else [(updatedOf newPath (relativeOf uri k), map (rewriteVal uri newPath) l)])
      else [(k, map (rewriteVal uri newPath) l)])"
  by (simp add: patchMap_closed alloc_def deref_def rekey_def)

section \<open>The claims on relocation\<close>

text \<open>
  C1. The graph pass rewrites exactly the \<open>deps\<close> entries that are strings beginning with
  the old-root URI prefix, each at its own position, to \<open>file://\<close> + new root + \<open>/\<close> +
  the text after the prefix and one more character; every other entry is unchanged, and
  the sequence keeps its length and order.
\<close>

theorem relocateGraph_deps:
  "deps (fst (relocateGraph oldPath newPath g sf)) =
     map (\<lambda>v. case v of
                 JStr dep \<Rightarrow>
                   if startsWith dep (''file://'' @ oldPath)
                   then JStr (''file://'' @ newPath @ ''/'' @ drop (length (''file://'' @ oldPath) + 1) dep)
                   else v
               | _ \<Rightarrow> v) (deps g)
   \<and> length (deps (fst (relocateGraph oldPath newPath g sf))) = length (deps g)
   \<and> version_hash (fst (relocateGraph oldPath newPath g sf)) = version_hash g"
proof -
  have "rewriteVal (workPathUri oldPath) newPath =
        (\<lambda>v. case v of
                 JStr dep \<Rightarrow>
                   if startsWith dep (''file://'' @ oldPath)
                   then JStr (''file://'' @ newPath @ ''/'' @ drop (length (''file://'' @ oldPath) + 1) dep)
                   else v
               | _ \<Rightarrow> v)"
    by (rule ext) (simp add: rewriteVal_def workPathUri_def split: jsval.split)
  then show ?thesis
    by (simp add: relocateGraph_closed)
qed

text \<open>
  C6. A pass that is given a set of discovered source files returns that set enlarged by
  exactly the suffixes of the strings it rewrote: those of the matching \<open>deps\<close> entries
  for a graph, and those of the matching keys and list elements of \<open>fileInfos\<close>,
  \<open>referencedMap\<close>, \<open>exportedModulesMap\<close>, \<open>fileNames\<close> and
  \<open>semanticDiagnosticsPerFile\<close> for a build-info document. Nothing is removed.
\<close>

theorem sourceFiles_recorded:
  "fst (snd (relocateGraph oldPath newPath g (Some S))) =
     Some (S \<union> set (relatives (workPathUri oldPath) (stringsOf (deps g))))
   \<and> fst (snd (relocateBuildInfo oldPath newPath bi (Some S))) =
     Some (S \<union> set (relatives (workPathUri oldPath) (examinedStrings (program bi))))
   \<and> (\<exists>S'. fst (snd (relocateGraph oldPath newPath g (Some S))) = Some S' \<and> S \<subseteq> S')
   \<and> (\<exists>S'. fst (snd (relocateBuildInfo oldPath newPath bi (Some S))) = Some S' \<and> S \<subseteq> S')"
  by (simp add: relocateGraph_closed relocateBuildInfo_closed relativesOf_strings)

text \<open>
  C10. The prefix test is a plain string prefix test and the suffix skips one character
  whatever it is: an entry \<open>workPathUri oldPath @ c # s\<close> matches for every character
  \<open>c\<close>, and each pattern (array element, \<open>fileInfos\<close> key, key of a key+list map)
  rewrites it to \<open>file://\<close> + new root + \<open>/\<close> + \<open>s\<close>, dropping \<open>c\<close>. With old root
  \<open>/var/task\<close> the entry \<open>file:///var/taskX/y\<close> of a sibling directory is rewritten.
\<close>

theorem prefix_without_separator:
  "startsWith (workPathUri oldPath @ c # s) (workPathUri oldPath)
   \<and> fst (patchArray (workPathUri oldPath) newPath 0
            (pre @ JStr (workPathUri oldPath @ c # s) # post) p) ! length pre =
       JStr (''file://'' @ newPath @ ''/'' @ s)
   \<and> deps (fst (relocateGraph oldPath newPath
            (g\<lparr>deps := pre @ JStr (workPathUri oldPath @ c # s) # post\<rparr>) sf)) ! length pre =
       JStr (''file://'' @ newPath @ ''/'' @ s)
   \<and> patchKeys (workPathUri oldPath) newPath [workPathUri oldPath @ c # s] obj (sf, nw) =
       (AList.delete (workPathUri oldPath @ c # s)
          (AList.update (''file://'' @ newPath @ ''/'' @ s) (js_get obj (workPathUri oldPath @ c # s)) obj),
        (map_option (insert s) sf, True))
   \<and> fst (patchRefs (workPathUri oldPath) newPath [(workPathUri oldPath @ c # s, r)] refobj heap (sf, nw)) =
       AList.delete (workPathUri oldPath @ c # s)
          (AList.update (''file://'' @ newPath @ ''/'' @ s) r refobj)
   \<and> relocateGraph ''/var/task'' ''/srv/fn''
         \<lparr>deps = [JStr ''file:///var/taskX/y''], version_hash = h\<rparr> None =
       (\<lparr>deps = [JStr ''file:///srv/fn//y''], version_hash = h\<rparr>, (None, True))"
proof -
  let ?uri = "workPathUri oldPath"
  let ?k = "?uri @ c # s"
  have a: "startsWith ?k ?uri" by simp
  have b: "fst (patchArray ?uri newPath 0 (pre @ JStr ?k # post) p) ! length pre =
       JStr (''file://'' @ newPath @ ''/'' @ s)"
    by (cases p) (simp add: patchArray_closed nth_append updatedOf_def)
  have c: "deps (fst (relocateGraph oldPath newPath (g\<lparr>deps := pre @ JStr ?k # post\<rparr>) sf)) ! length pre =
       JStr (''file://'' @ newPath @ ''/'' @ s)"
    by (simp add: relocateGraph_closed nth_append updatedOf_def)
  have d: "patchKeys ?uri newPath [?k] obj (sf, nw) =
       (AList.delete ?k (AList.update (''file://'' @ newPath @ ''/'' @ s) (js_get obj ?k) obj),
        (map_option (insert s) sf, True))"
    by (simp add: updatedOf_def)
  have e: "fst (patchRefs ?uri newPath [(?k, r)] refobj heap (sf, nw)) =
       AList.delete ?k (AList.update (''file://'' @ newPath @ ''/'' @ s) r refobj)"
    by (simp add: patchArray_closed updatedOf_def)
  have f: "relocateGraph ''/var/task'' ''/srv/fn''
         \<lparr>deps = [JStr ''file:///var/taskX/y''], version_hash = h\<rparr> None =
       (\<lparr>deps = [JStr ''file:///srv/fn//y''], version_hash = h\<rparr>, (None, True))"
    by (simp add: relocateGraph_closed workPathUri_def startsWith_def updatedOf_def relativeOf_def substring_def)
  from a b c d e f show ?thesis by blast
qed

text \<open>
  C4. A graph or build-info document with no string that begins with the old-root URI
  prefix is left as it is: the pass returns the same document, the given set and the flag
  \<open>False\<close>, and \<open>writeFile\<close> is not called. Conversely, when \<open>writeFile\<close> is called, some
  examined string of the parsed document began with the prefix, and what is written is the
  relocated document.
\<close>

theorem noop_without_match:
  "((\<forall>s\<in>set (graphStrings g). \<not> startsWith s (workPathUri oldPath)) \<longrightarrow>
      relocateGraph oldPath newPath g sf = (g, (sf, False))
      \<and> (parseG content = Some g \<longrightarrow>
           patchGraphFile parseG stringifyG oldPath newPath content sf = Inr (None, sf)
           \<and> fileAfter content None = content))
   \<and> ((\<forall>s\<in>set (buildInfoStrings bi). \<not> startsWith s (workPathUri oldPath)) \<longrightarrow>
      relocateBuildInfo oldPath newPath bi sf = (bi, (sf, False))
      \<and> (parseB content = Some bi \<longrightarrow>
           patchBuildInfoFile parseB stringifyB oldPath newPath content sf = Inr (None, sf)
           \<and> fileAfter content None = content))
   \<and> (patchGraphFile parseG stringifyG oldPath newPath content sf = Inr (Some d, sf') \<longrightarrow>
        (\<exists>g'. parseG content = Some g'
            \<and> list_ex (\<lambda>s. startsWith s (workPathUri oldPath)) (stringsOf (deps g'))
            \<and> d = stringifyG (fst (relocateGraph oldPath newPath g' sf))))
   \<and> (patchBuildInfoFile parseB stringifyB oldPath newPath content sf = Inr (Some d, sf') \<longrightarrow>
        (\<exists>bi'. parseB content = Some bi'
            \<and> list_ex (\<lambda>s. startsWith s (workPathUri oldPath)) (examinedStrings (program bi'))
            \<and> d = stringifyB (fst (relocateBuildInfo oldPath newPath bi' sf))))"
proof (intro conjI impI)
  assume h: "\<forall>s\<in>set (graphStrings g). \<not> startsWith s (workPathUri oldPath)"
  then have n: "\<not> list_ex (\<lambda>s. startsWith s (workPathUri oldPath)) (stringsOf (deps g))"
    by (simp add: graphStrings_def list_ex_iff)
  show "relocateGraph oldPath newPath g sf = (g, (sf, False))"
    by (rule relocateGraph_noop[OF n])
  assume "parseG content = Some g"
  then show "patchGraphFile parseG stringifyG oldPath newPath content sf = Inr (None, sf)"
    by (simp add: patchGraphFile_def relocateGraph_noop[OF n])
next
  assume h: "\<forall>s\<in>set (buildInfoStrings bi). \<not> startsWith s (workPathUri oldPath)"
  then have n: "\<not> list_ex (\<lambda>s. startsWith s (workPathUri oldPath)) (examinedStrings (program bi))"
    by (simp add: buildInfoStrings_def list_ex_iff)
  show "relocateBuildInfo oldPath newPath bi sf = (bi, (sf, False))"
    by (rule relocateBuildInfo_noop[OF n])
  assume "parseB content = Some bi"
  then show "patchBuildInfoFile parseB stringifyB oldPath newPath content sf = Inr (None, sf)"
    by (simp add: patchBuildInfoFile_def relocateBuildInfo_noop[OF n])
next
  assume "patchGraphFile parseG stringifyG oldPath newPath content sf = Inr (Some d, sf')"
  then show "\<exists>g'. parseG content = Some g'
            \<and> list_ex (\<lambda>s. startsWith s (workPathUri oldPath)) (stringsOf (deps g'))
            \<and> d = stringifyG (fst (relocateGraph oldPath newPath g' sf))"
    by (auto simp: patchGraphFile_def relocateGraph_closed matches_strings split: option.splits if_splits)
next
  assume "patchBuildInfoFile parseB stringifyB oldPath newPath content sf = Inr (Some d, sf')"
  then show "\<exists>bi'. parseB content = Some bi'
            \<and> list_ex (\<lambda>s. startsWith s (workPathUri oldPath)) (examinedStrings (program bi'))
            \<and> d = stringifyB (fst (relocateBuildInfo oldPath newPath bi' sf))"
    by (auto simp: patchBuildInfoFile_def relocateBuildInfo_closed split: option.splits if_splits)
qed (simp_all add: fileAfter_def)


theorem noop_without_match_witness:
  "list_all (\<lambda>s. \<not> startsWith s (workPathUri ''/vercel/path0''))
     (graphStrings \<lparr>deps = [JStr ''https://deno.land/x/a.ts'', JNull], version_hash = ''abc''\<rparr>)
   \<and> relocateGraph ''/vercel/path0'' ''/var/task''
        \<lparr>deps = [JStr ''https://deno.land/x/a.ts'', JNull], version_hash = ''abc''\<rparr> (Some {''api/a.ts''}) =
       (\<lparr>deps = [JStr ''https://deno.land/x/a.ts'', JNull], version_hash = ''abc''\<rparr>,
        (Some {''api/a.ts''}, False))
   \<and> patchGraphFile
        (\<lambda>c. if c = ''g'' then Some \<lparr>deps = [JStr ''https://deno.land/x/a.ts'', JNull], version_hash = ''abc''\<rparr>
              else None)
        (\<lambda>g. ''w'') ''/vercel/path0'' ''/var/task'' ''g'' (Some {''api/a.ts''}) =
       Inr (None, Some {''api/a.ts''})
   \<and> list_all (\<lambda>s. \<not> startsWith s (workPathUri ''/vercel/path0''))
     (buildInfoStrings
        \<lparr>program = \<lparr>fileNames = Some [JStr ''https://a/b.ts''],
            fileInfos = [(''https://a/b.ts'', Some \<lparr>version = ''1'', signature = ''s'', affectsGlobalScope = False\<rparr>)],
            referencedMap = [(''https://a/b.ts'', [JStr ''https://a/c.ts''])],
            exportedModulesMap = [], semanticDiagnosticsPerFile = None\<rparr>,
         bi_version = ''4.4''\<rparr>)
   \<and> relocateBuildInfo ''/vercel/path0'' ''/var/task''
        \<lparr>program = \<lparr>fileNames = Some [JStr ''https://a/b.ts''],
            fileInfos = [(''https://a/b.ts'', Some \<lparr>version = ''1'', signature = ''s'', affectsGlobalScope = False\<rparr>)],
            referencedMap = [(''https://a/b.ts'', [JStr ''https://a/c.ts''])],
            exportedModulesMap = [], semanticDiagnosticsPerFile = None\<rparr>,
         bi_version = ''4.4''\<rparr> None =
       (\<lparr>program = \<lparr>fileNames = Some [JStr ''https://a/b.ts''],
            fileInfos = [(''https://a/b.ts'', Some \<lparr>version = ''1'', signature = ''s'', affectsGlobalScope = False\<rparr>)],
            referencedMap = [(''https://a/b.ts'', [JStr ''https://a/c.ts''])],
            exportedModulesMap = [], semanticDiagnosticsPerFile = None\<rparr>,
         bi_version = ''4.4''\<rparr>, (None, False))
   \<and> patchGraphFile
        (\<lambda>c. if c = ''g'' then Some \<lparr>deps = [JStr ''file:///vercel/path0/api/a.ts''], version_hash = ''abc''\<rparr>
              else None)
        (\<lambda>g. ''w'') ''/vercel/path0'' ''/var/task'' ''g'' None = Inr (Some ''w'', None)
   \<and> list_ex (\<lambda>s. startsWith s (workPathUri ''/vercel/path0''))
        (stringsOf [JStr ''file:///vercel/path0/api/a.ts''])"
proof -
  let ?g = "\<lparr>deps = [JStr ''https://deno.land/x/a.ts'', JNull], version_hash = ''abc''\<rparr>"
  let ?g1 = "\<lparr>deps = [JStr ''file:///vercel/path0/api/a.ts''], version_hash = ''abc''\<rparr>"
  let ?bi = "\<lparr>program = \<lparr>fileNames = Some [JStr ''https://a/b.ts''],
            fileInfos = [(''https://a/b.ts'', Some \<lparr>version = ''1'', signature = ''s'', affectsGlobalScope = False\<rparr>)],
            referencedMap = [(''https://a/b.ts'', [JStr ''https://a/c.ts''])],
            exportedModulesMap = [], semanticDiagnosticsPerFile = None\<rparr>,
         bi_version = ''4.4''\<rparr>"
  have hg: "\<forall>s\<in>set (graphStrings ?g). \<not> startsWith s (workPathUri ''/vercel/path0'')"
    by (simp add: graphStrings_def startsWith_def workPathUri_def)
  have hb: "\<forall>s\<in>set (buildInfoStrings ?bi). \<not> startsWith s (workPathUri ''/vercel/path0'')"
    by (simp add: buildInfoStrings_def examinedStrings_def fileInfoStrings_def optArray_def
        startsWith_def workPathUri_def)
  have w: "patchGraphFile (\<lambda>c. if c = ''g'' then Some ?g1 else None) (\<lambda>g. ''w'')
             ''/vercel/path0'' ''/var/task'' ''g'' None = Inr (Some ''w'', None)"
    by (simp add: patchGraphFile_def relocateGraph_closed startsWith_def workPathUri_def)
  note a = noop_without_match[where g = ?g and bi = ?bi and oldPath = "''/vercel/path0''"
      and newPath = "''/var/task''" and content = "''g''" and sf = "Some {''api/a.ts''}"
      and parseG = "\<lambda>c. if c = ''g'' then Some ?g else None" and stringifyG = "\<lambda>g. ''w''"]
  note b = noop_without_match[where g = ?g and bi = ?bi and oldPath = "''/vercel/path0''"
      and newPath = "''/var/task''" and content = "''g''" and sf = None
      and parseG = "\<lambda>c. if c = ''g'' then Some ?g1 else None" and stringifyG = "\<lambda>g. ''w''"
      and d = "''w''" and sf' = None]
  from a hg have 1: "relocateGraph ''/vercel/path0'' ''/var/task'' ?g (Some {''api/a.ts''}) = (?g, (Some {''api/a.ts''}, False))"
    and 2: "patchGraphFile (\<lambda>c. if c = ''g'' then Some ?g else None) (\<lambda>g. ''w'')
             ''/vercel/path0'' ''/var/task'' ''g'' (Some {''api/a.ts''}) = Inr (None, Some {''api/a.ts''})"
    by simp_all
  from b hb have 3: "relocateBuildInfo ''/vercel/path0'' ''/var/task'' ?bi None = (?bi, (None, False))"
    by blast
  from b w have 4: "list_ex (\<lambda>s. startsWith s (workPathUri ''/vercel/path0'')) (stringsOf [JStr ''file:///vercel/path0/api/a.ts''])"
    by simp
  from hg hb 1 2 3 4 w show ?thesis
    by (simp only: list_all_iff simp_thms)
qed

section \<open>The claims on the runtime loop\<close>

text \<open>
  C8. When the control endpoint answers the long-poll \<open>invocation/next\<close> with a status
  other than 200, \<open>nextInvocation\<close> throws outside the \<open>try\<close>, the promise of
  \<open>processEvents\<close> rejects and the process exits with code 1. The events of the run are
  those of the earlier invocations followed by the fatal log and the exit: nothing is
  imported and the handler is not invoked for that exchange or for any later one.
\<close>

theorem fatal_next_status:
  assumes "next_status x \<noteq> 200"
    and "snd (snd (processEvents Null pre)) = Blocked"
    and "handlerEnv = Some name" and "name \<noteq> []"
  shows "snd (snd (processEvents Null (pre @ x # xs))) = Rejected
    \<and> bootstrap handlerEnv (pre @ x # xs) = fst (processEvents Null pre) @ [LogFatal, Exit 1]
    \<and> bootstrap handlerEnv (x # xs) = [Poll, LogFatal, Exit 1]
    \<and> fst (processEvents h (x # xs)) = [Poll]"
proof -
  have one: "processEvents h' (x # xs) = ([Poll], h', Rejected)" for h'
    using assms(1) by (simp add: nextInvocation_def)
  have ne: "fst (processEvents Null pre) \<noteq> []" by (rule processEvents_nonempty)
  have full: "processEvents Null (pre @ x # xs) =
      (fst (processEvents Null pre), fst (snd (processEvents Null pre)), Rejected)"
    unfolding processEvents_append[OF assms(2)] one fst_conv snd_conv
    using append_butlast_last_id[OF ne] processEvents_last_Poll[OF assms(2)] by simp
  show ?thesis
    using assms(3,4) by (simp add: full one bootstrap_def del: processEvents.simps)
qed

theorem fatal_next_status_witness:
  "next_status \<lparr>next_status = 500, next_trace_id = None, next_request_id = None, next_body_ok = False,
        import_answer = Exports Callable, decode_ok = True, handler_throws = None, drain_throws = None,
        post_status = 202\<rparr> \<noteq> 200
   \<and> snd (snd (processEvents Null
        [\<lparr>next_status = 200, next_trace_id = None, next_request_id = Some ''r1'', next_body_ok = True,
          import_answer = Exports Callable, decode_ok = True, handler_throws = None, drain_throws = None,
          post_status = 202\<rparr>])) = Blocked
   \<and> bootstrap (Some ''api/oak.ts'')
        ([\<lparr>next_status = 200, next_trace_id = None, next_request_id = Some ''r1'', next_body_ok = True,
          import_answer = Exports Callable, decode_ok = True, handler_throws = None, drain_throws = None,
          post_status = 202\<rparr>]
         @ \<lparr>next_status = 500, next_trace_id = None, next_request_id = None, next_body_ok = False,
        import_answer = Exports Callable, decode_ok = True, handler_throws = None, drain_throws = None,
        post_status = 202\<rparr>
         # [\<lparr>next_status = 200, next_trace_id = None, next_request_id = Some ''r2'', next_body_ok = True,
             import_answer = Exports Callable, decode_ok = True, handler_throws = None, drain_throws = None,
             post_status = 202\<rparr>]) =
       [Poll, DeleteTrace, Import, Invoke ''r1'', PostResponse ''r1'', Poll, LogFatal, Exit 1]"
proof -
  let ?ok = "\<lparr>next_status = 200, next_trace_id = None, next_request_id = Some ''r1'', next_body_ok = True,
          import_answer = Exports Callable, decode_ok = True, handler_throws = None, drain_throws = None,
          post_status = 202\<rparr>"
  let ?bad = "\<lparr>next_status = 500, next_trace_id = None, next_request_id = None, next_body_ok = False,
        import_answer = Exports Callable, decode_ok = True, handler_throws = None, drain_throws = None,
        post_status = 202\<rparr>"
  have a: "next_status ?bad \<noteq> 200" by simp
  have p: "processEvents Null [?ok] =
       ([Poll, DeleteTrace, Import, Invoke ''r1'', PostResponse ''r1'', Poll], Holds Callable, Blocked)"
    by (simp add: nextInvocation_def tryBlock_def callHandler_def unloaded_def)
  have b: "snd (snd (processEvents Null [?ok])) = Blocked"
    by (simp only: p snd_conv)
  have c: "Some ''api/oak.ts'' = Some ''api/oak.ts''" "''api/oak.ts'' \<noteq> []" by simp_all
  from fatal_next_status[OF a b c] a b show ?thesis
    by (simp only: p fst_conv append.simps simp_thms)
qed

text \<open>
  C9 as stated fails. The module is imported whenever the variable \<open>handler\<close> is still
  falsy: with a module whose default export is \<open>undefined\<close>, two invocations delivered
  with no protocol error import it twice. And an invocation whose handler throws
  \<open>undefined\<close> gets no POST at all: \<open>toLambdaErr\<close> throws in the \<open>catch\<close> block
  before any request is made, and the process exits with code 1.
\<close>

theorem import_once_counterexample:
  "fst (processEvents Null
     [\<lparr>next_status = 200, next_trace_id = None, next_request_id = Some ''r1'', next_body_ok = True,
       import_answer = Exports Falsy, decode_ok = True, handler_throws = None, drain_throws = None,
       post_status = 202\<rparr>,
      \<lparr>next_status = 200, next_trace_id = None, next_request_id = Some ''r2'', next_body_ok = True,
       import_answer = Exports Falsy, decode_ok = True, handler_throws = None, drain_throws = None,
       post_status = 202\<rparr>]) =
     [Poll, DeleteTrace, Import, LogInvokeError, PostError ''r1'',
      Poll, DeleteTrace, Import, LogInvokeError, PostError ''r2'', Poll]
   \<and> count_list (fst (processEvents Null
     [\<lparr>next_status = 200, next_trace_id = None, next_request_id = Some ''r1'', next_body_ok = True,
       import_answer = Exports Falsy, decode_ok = True, handler_throws = None, drain_throws = None,
       post_status = 202\<rparr>,
      \<lparr>next_status = 200, next_trace_id = None, next_request_id = Some ''r2'', next_body_ok = True,
       import_answer = Exports Falsy, decode_ok = True, handler_throws = None, drain_throws = None,
       post_status = 202\<rparr>])) Import = 2
   \<and> bootstrap (Some ''api/oak.ts'')
     [\<lparr>next_status = 200, next_trace_id = None, next_request_id = Some ''r1'', next_body_ok = True,
       import_answer = Exports Callable, decode_ok = True, handler_throws = Some Unreportable,
       drain_throws = None, post_status = 202\<rparr>] =
     [Poll, DeleteTrace, Import, Invoke ''r1'', LogInvokeError, LogFatal, Exit 1]"
  by (simp add: bootstrap_def nextInvocation_def tryBlock_def callHandler_def unloaded_def)

text \<open>
  C9, amended. Take a sequence of N invocation events delivered with no protocol error
  (every long-poll answered with status 200, the request-id header and a body that parses
  as JSON, every POST answered with status 202) during which nothing is thrown that the
  loop cannot report (\<open>undefined\<close>, \<open>null\<close>). Then the loop stays alive, issues
  exactly one POST per invocation (to its response or to its error endpoint) in delivery
  order, with exactly one POST between two consecutive long-polls, and invokes the handler
  at most N times. The handler module is imported at exactly the invocations that find
  the variable \<open>handler\<close> falsy: at the first invocation, at most N times, never once
  the variable is truthy, and exactly once when the import of the first invocation yields
  a truthy default export.
\<close>

theorem loop_cardinality:
  assumes "cleanRun h xs"
  shows "snd (snd (processEvents h xs)) = Blocked
    \<and> map postId (filter isPost (fst (processEvents h xs))) = map requestId xs
    \<and> filter (\<lambda>e. e = Poll \<or> isPost e) (fst (processEvents h xs)) =
        concat (map (\<lambda>p. [Poll, p]) (filter isPost (fst (processEvents h xs)))) @ [Poll]
    \<and> length (filter isInvoke (fst (processEvents h xs))) \<le> length xs
    \<and> count_list (fst (processEvents h xs)) Import = foundFalsy h xs
    \<and> count_list (fst (processEvents h xs)) Import \<le> length xs
    \<and> (xs \<noteq> [] \<longrightarrow>
          (Import \<in> set (takeWhile (\<lambda>e. \<not> isPost e) (fst (processEvents h xs)))) = unloaded h)
    \<and> (\<not> unloaded h \<longrightarrow> count_list (fst (processEvents h xs)) Import = 0)
    \<and> (xs \<noteq> [] \<and> unloaded h \<and> import_answer (hd xs) \<in> {Exports Callable, Exports TruthyNonCallable}
         \<longrightarrow> count_list (fst (processEvents h xs)) Import = 1)"
proof -
  note cnt = cleanRun_imports[OF assms]
  have le: "count_list (fst (processEvents h xs)) Import \<le> length xs"
    unfolding cnt by (rule foundFalsy_le)
  have first: "(Import \<in> set (takeWhile (\<lambda>e. \<not> isPost e) (fst (processEvents h xs)))) = unloaded h"
    if "xs \<noteq> []"
  proof -
    from that obtain x ys where xs: "xs = x # ys" by (cases xs) auto
    show ?thesis unfolding xs by (rule cleanRun_first_import[OF assms[unfolded xs]])
  qed
  have zero: "count_list (fst (processEvents h xs)) Import = 0" if "\<not> unloaded h"
    unfolding cnt by (rule foundFalsy_loaded[OF that])
  have once: "count_list (fst (processEvents h xs)) Import = 1"
    if "xs \<noteq> []" "unloaded h" "import_answer (hd xs) \<in> {Exports Callable, Exports TruthyNonCallable}"
  proof -
    from that(1) obtain x ys where xs: "xs = x # ys" by (cases xs) auto
    from that(3) xs obtain ex where ex: "import_answer x = Exports ex" "ex \<noteq> Falsy" by auto
    have "foundFalsy (handlerAfter h x) ys = 0"
      by (rule foundFalsy_loaded[OF handlerAfter_truthy[OF that(2) ex]])
    then have "foundFalsy h xs = 1" unfolding xs using that(2) by simp
    then show ?thesis by (simp only: cnt)
  qed
  show ?thesis
    using cleanRun_blocked[OF assms] cleanRun_posts[OF assms] cleanRun_alternate[OF assms]
      cleanRun_invokes[OF assms] cnt le first zero once
    by blast
qed

theorem loop_cardinality_witness:
  "cleanRun Null
     [\<lparr>next_status = 200, next_trace_id = Some ''t1'', next_request_id = Some ''r1'', next_body_ok = True,
       import_answer = Exports Callable, decode_ok = True, handler_throws = None, drain_throws = None,
       post_status = 202\<rparr>,
      \<lparr>next_status = 200, next_trace_id = None, next_request_id = Some ''r2'', next_body_ok = True,
       import_answer = Exports Callable, decode_ok = True, handler_throws = Some Reportable,
       drain_throws = None, post_status = 202\<rparr>]
   \<and> fst (processEvents Null
     [\<lparr>next_status = 200, next_trace_id = Some ''t1'', next_request_id = Some ''r1'', next_body_ok = True,
       import_answer = Exports Callable, decode_ok = True, handler_throws = None, drain_throws = None,
       post_status = 202\<rparr>,
      \<lparr>next_status = 200, next_trace_id = None, next_request_id = Some ''r2'', next_body_ok = True,
       import_answer = Exports Callable, decode_ok = True, handler_throws = Some Reportable,
       drain_throws = None, post_status = 202\<rparr>]) =
     [Poll, SetTrace ''t1'', Import, Invoke ''r1'', PostResponse ''r1'',
      Poll, DeleteTrace, Invoke ''r2'', LogInvokeError, PostError ''r2'', Poll]
   \<and> count_list (fst (processEvents Null
     [\<lparr>next_status = 200, next_trace_id = Some ''t1'', next_request_id = Some ''r1'', next_body_ok = True,
       import_answer = Exports Callable, decode_ok = True, handler_throws = None, drain_throws = None,
       post_status = 202\<rparr>,
      \<lparr>next_status = 200, next_trace_id = None, next_request_id = Some ''r2'', next_body_ok = True,
       import_answer = Exports Callable, decode_ok = True, handler_throws = Some Reportable,
       drain_throws = None, post_status = 202\<rparr>])) Import = 1"
proof -
  let ?xs = "[\<lparr>next_status = 200, next_trace_id = Some ''t1'', next_request_id = Some ''r1'', next_body_ok = True,
       import_answer = Exports Callable, decode_ok = True, handler_throws = None, drain_throws = None,
       post_status = 202\<rparr>,
      \<lparr>next_status = 200, next_trace_id = None, next_request_id = Some ''r2'', next_body_ok = True,
       import_answer = Exports Callable, decode_ok = True, handler_throws = Some Reportable,
       drain_throws = None, post_status = 202\<rparr>]"
  have c: "cleanRun Null ?xs"
    by (simp add: tryBlock_def callHandler_def unloaded_def handlerAfter_def requestId_def)
  have t: "fst (processEvents Null ?xs) =
     [Poll, SetTrace ''t1'', Import, Invoke ''r1'', PostResponse ''r1'',
      Poll, DeleteTrace, Invoke ''r2'', LogInvokeError, PostError ''r2'', Poll]"
    by (simp add: nextInvocation_def tryBlock_def callHandler_def unloaded_def)
  have u: "?xs \<noteq> [] \<and> unloaded Null
      \<and> import_answer (hd ?xs) \<in> {Exports Callable, Exports TruthyNonCallable}"
    by (simp add: unloaded_def)
  from loop_cardinality[OF c] u
  have "count_list (fst (processEvents Null ?xs)) Import = 1" by blast
  with c t show ?thesis by (simp only: simp_thms)
qed

section \<open>The claim on tolerated errors\<close>

text \<open>
  C7 as stated fails for the directory cleanup: \<open>deleteEmptyDirs\<close> on a directory that
  does not exist raises \<open>ENOENT\<close>.
\<close>

theorem cleanup_enoent_counterexample:
  "deleteEmptyDirs \<lparr>dirs = [[], [''gen'']], files = [], denied = []\<rparr> [''gen'', ''old''] = Inl ENOENT"
  by (simp add: deleteEmptyDirs.simps[of _ "[''gen'', ''old'']"] readdir_def)

text \<open>
  C7, amended. During port-file polling the error \<open>ENOENT\<close> of \<open>readFile\<close> is tolerated:
  the loop goes on to its next round, and rounds that all end in \<open>ENOENT\<close> never raise;
  any other error of \<open>readFile\<close> is thrown. During the directory cleanup every error of
  \<open>readdir\<close> or \<open>rmdir\<close>, \<open>ENOENT\<close> included, is thrown, at the directory the cleanup
  starts from and at every ancestor it reaches: the cleanup goes up exactly while the
  directory is empty and its removal succeeds, and it returns only at a directory that is
  not empty.
\<close>

theorem enoent_only_tolerated_when_polling:
  "(\<not> aborted r \<and> readFile r = Inl ENOENT \<longrightarrow> waitForPortFile n (r # rs) = waitForPortFile n rs)
   \<and> (list_all (\<lambda>r. \<not> aborted r \<and> readFile r = Inl ENOENT) rs \<longrightarrow> waitForPortFile n rs = None)
   \<and> (\<not> aborted r \<and> readFile r = Inl e \<and> e \<noteq> ENOENT \<longrightarrow> waitForPortFile n (r # rs) = Some (Inl e))
   \<and> (readdir fs dir = Inl e \<longrightarrow> deleteEmptyDirs fs dir = Inl e)
   \<and> (readdir fs dir = Inr [] \<and> rmdir fs dir = Inl e \<longrightarrow> deleteEmptyDirs fs dir = Inl e)
   \<and> (readdir fs dir = Inr [] \<and> rmdir fs dir = Inr fs' \<longrightarrow>
        deleteEmptyDirs fs dir = deleteEmptyDirs fs' (dirname dir))
   \<and> (readdir fs dir = Inr (f # fl) \<longrightarrow> deleteEmptyDirs fs dir = Inr fs)
   \<and> (ascend fs dir k = Some (reached, at) \<and> readdir reached at = Inl e \<longrightarrow> deleteEmptyDirs fs dir = Inl e)
   \<and> (ascend fs dir k = Some (reached, at) \<and> readdir reached at = Inr [] \<and> rmdir reached at = Inl e \<longrightarrow>
        deleteEmptyDirs fs dir = Inl e)
   \<and> (deleteEmptyDirs fs dir = Inr final \<longrightarrow>
        (\<exists>j top g gl. ascend fs dir j = Some (final, top) \<and> readdir final top = Inr (g # gl)))"
proof -
  have up1: "deleteEmptyDirs fs dir = Inl e" if "ascend fs dir k = Some (reached, at)" "readdir reached at = Inl e"
    using deleteEmptyDirs_ascend[OF that(1)] deleteEmptyDirs_readdir_error[OF that(2)] by simp
  have up2: "deleteEmptyDirs fs dir = Inl e"
    if "ascend fs dir k = Some (reached, at)" "readdir reached at = Inr []" "rmdir reached at = Inl e"
    using deleteEmptyDirs_ascend[OF that(1)] deleteEmptyDirs_rmdir_error[OF that(2,3)] by simp
  have poll: "waitForPortFile n (r # rs) = waitForPortFile n rs" if "\<not> aborted r" "readFile r = Inl ENOENT"
    using that by simp
  have thr: "waitForPortFile n (r # rs) = Some (Inl e)" if "\<not> aborted r" "readFile r = Inl e" "e \<noteq> ENOENT"
    using that by simp
  note ret = deleteEmptyDirs_returns[of fs dir final]
  show ?thesis
  proof (intro conjI impI)
    show "\<exists>j top g gl. ascend fs dir j = Some (final, top) \<and> readdir final top = Inr (g # gl)"
      if "deleteEmptyDirs fs dir = Inr final"
      by (rule ret[OF that])
  qed (auto intro: poll thr polling_continues deleteEmptyDirs_readdir_error deleteEmptyDirs_rmdir_error
        deleteEmptyDirs_up deleteEmptyDirs_stop up1 up2 simp del: waitForPortFile.simps)
qed

theorem enoent_only_tolerated_when_polling_witness:
  "waitForPortFile length
     [\<lparr>aborted = False, readFile = Inl ENOENT\<rparr>, \<lparr>aborted = False, readFile = Inr ''8080''\<rparr>] =
     waitForPortFile length [\<lparr>aborted = False, readFile = Inr ''8080''\<rparr>]
   \<and> waitForPortFile length [\<lparr>aborted = False, readFile = Inl ENOENT\<rparr>] = None
   \<and> waitForPortFile length
     [\<lparr>aborted = False, readFile = Inl EACCES\<rparr>, \<lparr>aborted = False, readFile = Inr ''8080''\<rparr>] =
     Some (Inl EACCES)
   \<and> readdir \<lparr>dirs = [[], [''gen'']], files = [], denied = []\<rparr> [''gen'', ''old''] = Inl ENOENT
   \<and> deleteEmptyDirs \<lparr>dirs = [[], [''gen'']], files = [], denied = []\<rparr> [''gen'', ''old''] = Inl ENOENT
   \<and> ascend \<lparr>dirs = [[], [''a''], [''a'', ''b'']], files = [], denied = [[''a'']]\<rparr> [''a'', ''b''] 1 =
       Some (\<lparr>dirs = [[], [''a'']], files = [], denied = [[''a'']]\<rparr>, [''a''])
   \<and> readdir \<lparr>dirs = [[], [''a'']], files = [], denied = [[''a'']]\<rparr> [''a''] = Inl EACCES
   \<and> deleteEmptyDirs \<lparr>dirs = [[], [''a''], [''a'', ''b'']], files = [], denied = [[''a'']]\<rparr> [''a'', ''b''] =
       Inl EACCES
   \<and> ascend \<lparr>dirs = [[], [''a'']], files = [], denied = []\<rparr> [''a''] 1 =
       Some (\<lparr>dirs = [[]], files = [], denied = []\<rparr>, [])
   \<and> rmdir \<lparr>dirs = [[]], files = [], denied = []\<rparr> [] = Inl EBUSY
   \<and> deleteEmptyDirs \<lparr>dirs = [[], [''a'']], files = [], denied = []\<rparr> [''a''] = Inl EBUSY"
proof -
  let ?fs = "\<lparr>dirs = [[], [''gen'']], files = [], denied = []\<rparr>"
  let ?den = "\<lparr>dirs = [[], [''a''], [''a'', ''b'']], files = [], denied = [[''a'']]\<rparr>"
  let ?den1 = "\<lparr>dirs = [[], [''a'']], files = [], denied = [[''a'']]\<rparr>"
  let ?one = "\<lparr>dirs = [[], [''a'']], files = [], denied = []\<rparr>"
  let ?root = "\<lparr>dirs = [[]], files = [], denied = []\<rparr>"
  have rd: "readdir ?fs [''gen'', ''old''] = Inl ENOENT" by (simp add: readdir_def)
  have a1: "ascend ?den [''a'', ''b''] 1 = Some (?den1, [''a''])"
    by (simp add: readdir_def rmdir_def entries_def dirname_def)
  have r1: "readdir ?den1 [''a''] = Inl EACCES" by (simp add: readdir_def)
  have a2: "ascend ?one [''a''] 1 = Some (?root, [])"
    by (simp add: readdir_def rmdir_def entries_def dirname_def)
  have r2: "readdir ?root [] = Inr []" by (simp add: readdir_def entries_def)
  have m2: "rmdir ?root [] = Inl EBUSY" by (simp add: rmdir_def entries_def)
  note a = enoent_only_tolerated_when_polling[where r = "\<lparr>aborted = False, readFile = Inl ENOENT\<rparr>"
      and rs = "[\<lparr>aborted = False, readFile = Inr ''8080''\<rparr>]" and n = length
      and fs = ?fs and dir = "[''gen'', ''old'']" and e = ENOENT]
  note b = enoent_only_tolerated_when_polling[where r = "\<lparr>aborted = False, readFile = Inl EACCES\<rparr>"
      and rs = "[\<lparr>aborted = False, readFile = Inl ENOENT\<rparr>]" and n = length
      and fs = ?den and dir = "[''a'', ''b'']" and e = EACCES and k = 1 and reached = ?den1
      and at = "[''a'']"]
  note c = enoent_only_tolerated_when_polling[where r = "\<lparr>aborted = False, readFile = Inl EACCES\<rparr>"
      and rs = "[\<lparr>aborted = False, readFile = Inr ''8080''\<rparr>]" and n = length
      and fs = ?one and dir = "[''a'']" and e = EBUSY and k = 1 and reached = ?root and at = "[]"]
  from a rd have 1: "waitForPortFile length
     [\<lparr>aborted = False, readFile = Inl ENOENT\<rparr>, \<lparr>aborted = False, readFile = Inr ''8080''\<rparr>] =
     waitForPortFile length [\<lparr>aborted = False, readFile = Inr ''8080''\<rparr>]"
    and 2: "deleteEmptyDirs ?fs [''gen'', ''old''] = Inl ENOENT"
    by simp_all
  from b a1 r1 have 3: "waitForPortFile length [\<lparr>aborted = False, readFile = Inl ENOENT\<rparr>] = None"
    and 4: "deleteEmptyDirs ?den [''a'', ''b''] = Inl EACCES"
    by simp_all
  from c a2 r2 m2 have 5: "waitForPortFile length
     [\<lparr>aborted = False, readFile = Inl EACCES\<rparr>, \<lparr>aborted = False, readFile = Inr ''8080''\<rparr>] =
     Some (Inl EACCES)"
    and 6: "deleteEmptyDirs ?one [''a''] = Inl EBUSY"
    by simp_all
  from 1 2 3 4 5 6 rd a1 r1 a2 m2 show ?thesis by (simp only: simp_thms)
qed

section \<open>The claims on the maps of a build-info document\<close>

text \<open>
  C2 as stated fails where the roots overlap. With old root \<open>/a\<close> and new root \<open>/a/b\<close>
  the key \<open>file:///a/b/x\<close> matches, is renamed and deleted, and is then written again as
  the new name of \<open>file:///a/x\<close>: the map ends with a key that was rewritten. With equal
  roots a matching key is renamed to itself and then deleted: the map ends without the
  new key.
\<close>

theorem no_coexistence_counterexample:
  "startsWith ''file:///a/b/x'' (workPathUri ''/a'')
   \<and> fileInfos (program (fst (relocateBuildInfo ''/a'' ''/a/b''
        \<lparr>program = \<lparr>fileNames = None,
            fileInfos = [(''file:///a/b/x'', Some \<lparr>version = ''2'', signature = ''t'', affectsGlobalScope = False\<rparr>),
                         (''file:///a/x'', Some \<lparr>version = ''1'', signature = ''s'', affectsGlobalScope = False\<rparr>)],
            referencedMap = [], exportedModulesMap = [], semanticDiagnosticsPerFile = None\<rparr>,
         bi_version = ''4.4''\<rparr> None))) =
       [(''file:///a/b/b/x'', Some \<lparr>version = ''2'', signature = ''t'', affectsGlobalScope = False\<rparr>),
        (''file:///a/b/x'', Some \<lparr>version = ''1'', signature = ''s'', affectsGlobalScope = False\<rparr>)]
   \<and> startsWith ''file:///t/a.ts'' (workPathUri ''/t'')
   \<and> fileInfos (program (fst (relocateBuildInfo ''/t'' ''/t''
        \<lparr>program = \<lparr>fileNames = None,
            fileInfos = [(''file:///t/a.ts'', Some \<lparr>version = ''1'', signature = ''s'', affectsGlobalScope = False\<rparr>)],
            referencedMap = [], exportedModulesMap = [], semanticDiagnosticsPerFile = None\<rparr>,
         bi_version = ''4.4''\<rparr> None))) = []"
  by (simp add: relocateBuildInfo_maps renameKey_def js_get_def startsWith_def workPathUri_def
      updatedOf_def relativeOf_def substring_def)

text \<open>
  C2, amended. After a build-info relocation pass, for each of \<open>fileInfos\<close>,
  \<open>referencedMap\<close> and \<open>exportedModulesMap\<close>: when no rewritten key equals a key of
  that map that itself matched the old-root URI prefix, every key of the map that matched
  is gone from the post-relocation map and its rewritten key is there, so no key is there
  under both its old and its new URI; and when a rewritten key does equal a matching key
  of the map, that fails for the map.
\<close>

theorem no_coexistence:
  "relocatedKeys (workPathUri oldPath) newPath (map fst (fileInfos (program bi)))
       (map fst (fileInfos (program (fst (relocateBuildInfo oldPath newPath bi sf))))) =
     noClash (workPathUri oldPath) newPath (map fst (fileInfos (program bi)))
   \<and> relocatedKeys (workPathUri oldPath) newPath (map fst (referencedMap (program bi)))
       (map fst (referencedMap (program (fst (relocateBuildInfo oldPath newPath bi sf))))) =
     noClash (workPathUri oldPath) newPath (map fst (referencedMap (program bi)))
   \<and> relocatedKeys (workPathUri oldPath) newPath (map fst (exportedModulesMap (program bi)))
       (map fst (exportedModulesMap (program (fst (relocateBuildInfo oldPath newPath bi sf))))) =
     noClash (workPathUri oldPath) newPath (map fst (exportedModulesMap (program bi)))"
proof -
  let ?uri = "workPathUri oldPath"
  let ?rw = "\<lambda>k. updatedOf newPath (relativeOf ?uri k)"
  have nc: "noClash ?uri newPath ks = (?rw ` {k \<in> set ks. startsWith k ?uri} \<inter> {k \<in> set ks. startsWith k ?uri} = {})"
    for ks
    by (auto simp: noClash_def list_all_iff)
  have gen: "relocatedKeys ?uri newPath ks ks' = noClash ?uri newPath ks"
    if "?rw ` {k \<in> set ks. startsWith k ?uri} \<inter> {k \<in> set ks. startsWith k ?uri} = {} \<Longrightarrow>
        set ks' = (set ks - {k \<in> set ks. startsWith k ?uri}) \<union> ?rw ` {k \<in> set ks. startsWith k ?uri}"
    for ks ks'
  proof
    assume r: "relocatedKeys ?uri newPath ks ks'"
    then have "\<forall>k\<in>{k \<in> set ks. startsWith k ?uri}. ?rw k \<in> set ks' \<and> k \<notin> set ks'"
      by (simp add: relocatedKeys_def list_all_iff)
    then have "?rw ` {k \<in> set ks. startsWith k ?uri} \<inter> {k \<in> set ks. startsWith k ?uri} = {}"
      by (rule renamed_all_no_clash)
    then show "noClash ?uri newPath ks" by (simp only: nc)
  next
    assume "noClash ?uri newPath ks"
    then have c: "?rw ` {k \<in> set ks. startsWith k ?uri} \<inter> {k \<in> set ks. startsWith k ?uri} = {}"
      by (simp only: nc)
    from that[OF c] c show "relocatedKeys ?uri newPath ks ks'"
      by (auto simp: relocatedKeys_def list_all_iff)
  qed
  have fi: "set (map fst (fileInfos (program (fst (relocateBuildInfo oldPath newPath bi sf))))) =
      (set (map fst (fileInfos (program bi))) - {k \<in> set (map fst (fileInfos (program bi))). startsWith k ?uri})
      \<union> ?rw ` {k \<in> set (map fst (fileInfos (program bi))). startsWith k ?uri}"
    if "?rw ` {k \<in> set (map fst (fileInfos (program bi))). startsWith k ?uri}
          \<inter> {k \<in> set (map fst (fileInfos (program bi))). startsWith k ?uri} = {}"
    using keys_foldl_renameKey[OF that, of "fileInfos (program bi)"]
    by (simp add: relocateBuildInfo_maps)
  have rm: "set (map fst (referencedMap (program (fst (relocateBuildInfo oldPath newPath bi sf))))) =
      (set (map fst (referencedMap (program bi))) - {k \<in> set (map fst (referencedMap (program bi))). startsWith k ?uri})
      \<union> ?rw ` {k \<in> set (map fst (referencedMap (program bi))). startsWith k ?uri}"
    if "?rw ` {k \<in> set (map fst (referencedMap (program bi))). startsWith k ?uri}
          \<inter> {k \<in> set (map fst (referencedMap (program bi))). startsWith k ?uri} = {}"
    using keys_patchMap[OF that, of "(None, False)"]
    by (simp add: relocateBuildInfo_maps)
  have em: "set (map fst (exportedModulesMap (program (fst (relocateBuildInfo oldPath newPath bi sf))))) =
      (set (map fst (exportedModulesMap (program bi))) - {k \<in> set (map fst (exportedModulesMap (program bi))). startsWith k ?uri})
      \<union> ?rw ` {k \<in> set (map fst (exportedModulesMap (program bi))). startsWith k ?uri}"
    if "?rw ` {k \<in> set (map fst (exportedModulesMap (program bi))). startsWith k ?uri}
          \<inter> {k \<in> set (map fst (exportedModulesMap (program bi))). startsWith k ?uri} = {}"
    using keys_patchMap[OF that, of "(None, False)"]
    by (simp add: relocateBuildInfo_maps)
  from gen[OF fi] gen[OF rm] gen[OF em] show ?thesis by blast
qed

text \<open>A pass over nested roots: old root \<open>/a\<close>, new root \<open>/a/b\<close>, no clash.\<close>

theorem no_coexistence_witness:
  "noClash (workPathUri ''/a'') ''/a/b'' (map fst (fileInfos (program
        \<lparr>program = \<lparr>fileNames = None,
            fileInfos = [(''file:///a/x'', Some \<lparr>version = ''1'', signature = ''s'', affectsGlobalScope = False\<rparr>),
                         (''https://x/m.ts'', Some \<lparr>version = ''2'', signature = ''t'', affectsGlobalScope = False\<rparr>)],
            referencedMap = [(''file:///a/x'', [JStr ''https://x/m.ts''])],
            exportedModulesMap = [], semanticDiagnosticsPerFile = None\<rparr>,
         bi_version = ''4.4''\<rparr>)))
   \<and> noClash (workPathUri ''/a'') ''/a/b'' (map fst (referencedMap (program
        \<lparr>program = \<lparr>fileNames = None,
            fileInfos = [(''file:///a/x'', Some \<lparr>version = ''1'', signature = ''s'', affectsGlobalScope = False\<rparr>),
                         (''https://x/m.ts'', Some \<lparr>version = ''2'', signature = ''t'', affectsGlobalScope = False\<rparr>)],
            referencedMap = [(''file:///a/x'', [JStr ''https://x/m.ts''])],
            exportedModulesMap = [], semanticDiagnosticsPerFile = None\<rparr>,
         bi_version = ''4.4''\<rparr>)))
   \<and> map fst (fileInfos (program (fst (relocateBuildInfo ''/a'' ''/a/b''
        \<lparr>program = \<lparr>fileNames = None,
            fileInfos = [(''file:///a/x'', Some \<lparr>version = ''1'', signature = ''s'', affectsGlobalScope = False\<rparr>),
                         (''https://x/m.ts'', Some \<lparr>version = ''2'', signature = ''t'', affectsGlobalScope = False\<rparr>)],
            referencedMap = [(''file:///a/x'', [JStr ''https://x/m.ts''])],
            exportedModulesMap = [], semanticDiagnosticsPerFile = None\<rparr>,
         bi_version = ''4.4''\<rparr> None)))) = [''https://x/m.ts'', ''file:///a/b/x'']
   \<and> map fst (referencedMap (program (fst (relocateBuildInfo ''/a'' ''/a/b''
        \<lparr>program = \<lparr>fileNames = None,
            fileInfos = [(''file:///a/x'', Some \<lparr>version = ''1'', signature = ''s'', affectsGlobalScope = False\<rparr>),
                         (''https://x/m.ts'', Some \<lparr>version = ''2'', signature = ''t'', affectsGlobalScope = False\<rparr>)],
            referencedMap = [(''file:///a/x'', [JStr ''https://x/m.ts''])],
            exportedModulesMap = [], semanticDiagnosticsPerFile = None\<rparr>,
         bi_version = ''4.4''\<rparr> None)))) = [''file:///a/b/x'']
   \<and> relocatedKeys (workPathUri ''/a'') ''/a/b'' (map fst (fileInfos (program
        \<lparr>program = \<lparr>fileNames = None,
            fileInfos = [(''file:///a/x'', Some \<lparr>version = ''1'', signature = ''s'', affectsGlobalScope = False\<rparr>),
                         (''https://x/m.ts'', Some \<lparr>version = ''2'', signature = ''t'', affectsGlobalScope = False\<rparr>)],
            referencedMap = [(''file:///a/x'', [JStr ''https://x/m.ts''])],
            exportedModulesMap = [], semanticDiagnosticsPerFile = None\<rparr>,
         bi_version = ''4.4''\<rparr>)))
       (map fst (fileInfos (program (fst (relocateBuildInfo ''/a'' ''/a/b''
        \<lparr>program = \<lparr>fileNames = None,
            fileInfos = [(''file:///a/x'', Some \<lparr>version = ''1'', signature = ''s'', affectsGlobalScope = False\<rparr>),
                         (''https://x/m.ts'', Some \<lparr>version = ''2'', signature = ''t'', affectsGlobalScope = False\<rparr>)],
            referencedMap = [(''file:///a/x'', [JStr ''https://x/m.ts''])],
            exportedModulesMap = [], semanticDiagnosticsPerFile = None\<rparr>,
         bi_version = ''4.4''\<rparr> None)))))
   \<and> relocatedKeys (workPathUri ''/a'') ''/a/b'' (map fst (referencedMap (program
        \<lparr>program = \<lparr>fileNames = None,
            fileInfos = [(''file:///a/x'', Some \<lparr>version = ''1'', signature = ''s'', affectsGlobalScope = False\<rparr>),
                         (''https://x/m.ts'', Some \<lparr>version = ''2'', signature = ''t'', affectsGlobalScope = False\<rparr>)],
            referencedMap = [(''file:///a/x'', [JStr ''https://x/m.ts''])],
            exportedModulesMap = [], semanticDiagnosticsPerFile = None\<rparr>,
         bi_version = ''4.4''\<rparr>)))
       (map fst (referencedMap (program (fst (relocateBuildInfo ''/a'' ''/a/b''
        \<lparr>program = \<lparr>fileNames = None,
            fileInfos = [(''file:///a/x'', Some \<lparr>version = ''1'', signature = ''s'', affectsGlobalScope = False\<rparr>),
                         (''https://x/m.ts'', Some \<lparr>version = ''2'', signature = ''t'', affectsGlobalScope = False\<rparr>)],
            referencedMap = [(''file:///a/x'', [JStr ''https://x/m.ts''])],
            exportedModulesMap = [], semanticDiagnosticsPerFile = None\<rparr>,
         bi_version = ''4.4''\<rparr> None)))))"
proof -
  let ?bi = "\<lparr>program = \<lparr>fileNames = None,
            fileInfos = [(''file:///a/x'', Some \<lparr>version = ''1'', signature = ''s'', affectsGlobalScope = False\<rparr>),
                         (''https://x/m.ts'', Some \<lparr>version = ''2'', signature = ''t'', affectsGlobalScope = False\<rparr>)],
            referencedMap = [(''file:///a/x'', [JStr ''https://x/m.ts''])],
            exportedModulesMap = [], semanticDiagnosticsPerFile = None\<rparr>,
         bi_version = ''4.4''\<rparr>"
  have m: "startsWith ''file:///a/x'' (workPathUri ''/a'')" "\<not> startsWith ''https://x/m.ts'' (workPathUri ''/a'')"
    by (simp_all add: startsWith_def workPathUri_def)
  have u: "updatedOf ''/a/b'' (relativeOf (workPathUri ''/a'') ''file:///a/x'') = ''file:///a/b/x''"
    by (simp add: updatedOf_def relativeOf_def substring_def workPathUri_def)
  have n1: "noClash (workPathUri ''/a'') ''/a/b'' (map fst (fileInfos (program ?bi)))"
    and n2: "noClash (workPathUri ''/a'') ''/a/b'' (map fst (referencedMap (program ?bi)))"
    using m u by (simp_all add: noClash_def)
  have k1: "map fst (fileInfos (program (fst (relocateBuildInfo ''/a'' ''/a/b'' ?bi None)))) =
      [''https://x/m.ts'', ''file:///a/b/x'']"
    using m u by (simp add: relocateBuildInfo_maps renameKey_def js_get_def)
  have k2: "map fst (referencedMap (program (fst (relocateBuildInfo ''/a'' ''/a/b'' ?bi None)))) =
      [''file:///a/b/x'']"
    using m u by (simp add: relocateBuildInfo_maps patchMap_single)
  from no_coexistence[of "''/a''" "''/a/b''" ?bi None] n1 n2
  have "relocatedKeys (workPathUri ''/a'') ''/a/b'' (map fst (fileInfos (program ?bi)))
       (map fst (fileInfos (program (fst (relocateBuildInfo ''/a'' ''/a/b'' ?bi None)))))"
    and "relocatedKeys (workPathUri ''/a'') ''/a/b'' (map fst (referencedMap (program ?bi)))
       (map fst (referencedMap (program (fst (relocateBuildInfo ''/a'' ''/a/b'' ?bi None)))))"
    by blast+
  with n1 n2 k1 k2 show ?thesis by (simp only: simp_thms)
qed

text \<open>
  C5 as stated fails. A string that already lies under root B is left alone on the way
  there and relocated on the way back, and a string in which the prefix of root A is not
  followed by the separator loses that character.
\<close>

theorem round_trip_counterexample:
  "graphRoundTrip ''/a'' ''/b'' \<lparr>deps = [JStr ''file:///b/z''], version_hash = ''h''\<rparr> None None =
     \<lparr>deps = [JStr ''file:///a/z''], version_hash = ''h''\<rparr>
   \<and> graphRoundTrip ''/a'' ''/b'' \<lparr>deps = [JStr ''file:///b/z''], version_hash = ''h''\<rparr> None None \<noteq>
     \<lparr>deps = [JStr ''file:///b/z''], version_hash = ''h''\<rparr>
   \<and> graphRoundTrip ''/a'' ''/b'' \<lparr>deps = [JStr ''file:///aX/y''], version_hash = ''h''\<rparr> None None =
     \<lparr>deps = [JStr ''file:///a//y''], version_hash = ''h''\<rparr>"
  by (simp add: graphRoundTrip_def relocateGraph_closed startsWith_def workPathUri_def
      updatedOf_def relativeOf_def substring_def)

text \<open>
  C5, amended. Let no string that the pass examines begin with the URI prefix of root B,
  let every examined string that begins with the URI prefix of root A continue with the
  separator \<open>/\<close>, and let the keys of each map be distinct (as the keys of an object
  are). Then relocating from A to B and the result back from B to A restores the
  document: every \<open>deps\<close>, \<open>fileNames\<close> and \<open>semanticDiagnosticsPerFile\<close> element in its
  place, and the same keys with the same values and value lists in \<open>fileInfos\<close>,
  \<open>referencedMap\<close> and \<open>exportedModulesMap\<close> (the order of the keys may differ).
\<close>

theorem round_trip:
  assumes "\<forall>s\<in>set (stringsOf (deps g)). roundTripSafe pathA pathB s"
    and "\<forall>s\<in>set (examinedStrings (program bi)). roundTripSafe pathA pathB s"
    and "distinct (map fst (fileInfos (program bi)))"
    and "distinct (map fst (referencedMap (program bi)))"
    and "distinct (map fst (exportedModulesMap (program bi)))"
  shows "graphRoundTrip pathA pathB g sf sf' = g
    \<and> fileNames (program (buildInfoRoundTrip pathA pathB bi sf sf')) = fileNames (program bi)
    \<and> semanticDiagnosticsPerFile (program (buildInfoRoundTrip pathA pathB bi sf sf')) =
        semanticDiagnosticsPerFile (program bi)
    \<and> map_of (fileInfos (program (buildInfoRoundTrip pathA pathB bi sf sf'))) = map_of (fileInfos (program bi))
    \<and> map_of (referencedMap (program (buildInfoRoundTrip pathA pathB bi sf sf'))) =
        map_of (referencedMap (program bi))
    \<and> map_of (exportedModulesMap (program (buildInfoRoundTrip pathA pathB bi sf sf'))) =
        map_of (exportedModulesMap (program bi))
    \<and> distinct (map fst (fileInfos (program (buildInfoRoundTrip pathA pathB bi sf sf'))))
    \<and> distinct (map fst (referencedMap (program (buildInfoRoundTrip pathA pathB bi sf sf'))))
    \<and> distinct (map fst (exportedModulesMap (program (buildInfoRoundTrip pathA pathB bi sf sf'))))
    \<and> bi_version (buildInfoRoundTrip pathA pathB bi sf sf') = bi_version bi"
proof -
  let ?p = "program bi"
  from assms(2) have
    kf: "\<forall>k\<in>fst ` set (fileInfos ?p). roundTripSafe pathA pathB k" and
    kr: "\<forall>k\<in>fst ` set (referencedMap ?p). roundTripSafe pathA pathB k" and
    vr: "\<forall>e\<in>set (referencedMap ?p). \<forall>s\<in>set (stringsOf (snd e)). roundTripSafe pathA pathB s" and
    ke: "\<forall>k\<in>fst ` set (exportedModulesMap ?p). roundTripSafe pathA pathB k" and
    ve: "\<forall>e\<in>set (exportedModulesMap ?p). \<forall>s\<in>set (stringsOf (snd e)). roundTripSafe pathA pathB s" and
    fn: "\<forall>s\<in>set (stringsOf (optArray (fileNames ?p))). roundTripSafe pathA pathB s" and
    sd: "\<forall>s\<in>set (stringsOf (optArray (semanticDiagnosticsPerFile ?p))). roundTripSafe pathA pathB s"
    by (auto simp: examinedStrings_def)
  have g: "graphRoundTrip pathA pathB g sf sf' = g"
    using safe_rewrite_back[OF assms(1)]
    by (simp add: graphRoundTrip_def relocateGraph_closed del: map_map)
  note rm = patchMap_roundtrip[OF assms(4) kr vr, of "(None, False)" "(None, False)"]
  note em = patchMap_roundtrip[OF assms(5) ke ve, of "(None, False)" "(None, False)"]
  note fi = renameKeys_roundtrip[OF assms(3) kf]
  show ?thesis
    unfolding buildInfoRoundTrip_def relocateBuildInfo_maps
    using g rm em fi optArray_roundtrip[OF fn] optArray_roundtrip[OF sd]
    by (simp only: simp_thms)
qed


theorem round_trip_witness:
  "list_all (roundTripSafe ''/src'' ''/t'') (stringsOf (deps \<lparr>deps = [JStr ''file:///src/a.ts'', JStr ''https://x/m.ts'', JNum 3], version_hash = ''h''\<rparr>))
   \<and> list_all (roundTripSafe ''/src'' ''/t'') (examinedStrings (program
        \<lparr>program = \<lparr>fileNames = Some [JStr ''file:///src/a.ts''],
            fileInfos = [(''file:///src/a.ts'', Some \<lparr>version = ''1'', signature = ''s'', affectsGlobalScope = False\<rparr>),
                         (''https://x/m.ts'', Some \<lparr>version = ''2'', signature = ''t'', affectsGlobalScope = False\<rparr>)],
            referencedMap = [(''file:///src/a.ts'', [JStr ''file:///src/b.ts''])],
            exportedModulesMap = [], semanticDiagnosticsPerFile = None\<rparr>,
         bi_version = ''4.4''\<rparr>))
   \<and> fst (relocateGraph ''/src'' ''/t'' \<lparr>deps = [JStr ''file:///src/a.ts'', JStr ''https://x/m.ts'', JNum 3], version_hash = ''h''\<rparr> None) =
       \<lparr>deps = [JStr ''file:///t/a.ts'', JStr ''https://x/m.ts'', JNum 3], version_hash = ''h''\<rparr>
   \<and> graphRoundTrip ''/src'' ''/t'' \<lparr>deps = [JStr ''file:///src/a.ts'', JStr ''https://x/m.ts'', JNum 3], version_hash = ''h''\<rparr> None None =
       \<lparr>deps = [JStr ''file:///src/a.ts'', JStr ''https://x/m.ts'', JNum 3], version_hash = ''h''\<rparr>
   \<and> fileNames (program (buildInfoRoundTrip ''/src'' ''/t''
        \<lparr>program = \<lparr>fileNames = Some [JStr ''file:///src/a.ts''],
            fileInfos = [(''file:///src/a.ts'', Some \<lparr>version = ''1'', signature = ''s'', affectsGlobalScope = False\<rparr>),
                         (''https://x/m.ts'', Some \<lparr>version = ''2'', signature = ''t'', affectsGlobalScope = False\<rparr>)],
            referencedMap = [(''file:///src/a.ts'', [JStr ''file:///src/b.ts''])],
            exportedModulesMap = [], semanticDiagnosticsPerFile = None\<rparr>,
         bi_version = ''4.4''\<rparr> None None)) = Some [JStr ''file:///src/a.ts'']
   \<and> map_of (referencedMap (program (buildInfoRoundTrip ''/src'' ''/t''
        \<lparr>program = \<lparr>fileNames = Some [JStr ''file:///src/a.ts''],
            fileInfos = [(''file:///src/a.ts'', Some \<lparr>version = ''1'', signature = ''s'', affectsGlobalScope = False\<rparr>),
                         (''https://x/m.ts'', Some \<lparr>version = ''2'', signature = ''t'', affectsGlobalScope = False\<rparr>)],
            referencedMap = [(''file:///src/a.ts'', [JStr ''file:///src/b.ts''])],
            exportedModulesMap = [], semanticDiagnosticsPerFile = None\<rparr>,
         bi_version = ''4.4''\<rparr> None None))) = map_of [(''file:///src/a.ts'', [JStr ''file:///src/b.ts''])]
   \<and> map_of (fileInfos (program (buildInfoRoundTrip ''/src'' ''/t''
        \<lparr>program = \<lparr>fileNames = Some [JStr ''file:///src/a.ts''],
            fileInfos = [(''file:///src/a.ts'', Some \<lparr>version = ''1'', signature = ''s'', affectsGlobalScope = False\<rparr>),
                         (''https://x/m.ts'', Some \<lparr>version = ''2'', signature = ''t'', affectsGlobalScope = False\<rparr>)],
            referencedMap = [(''file:///src/a.ts'', [JStr ''file:///src/b.ts''])],
            exportedModulesMap = [], semanticDiagnosticsPerFile = None\<rparr>,
         bi_version = ''4.4''\<rparr> None None))) =
       map_of [(''file:///src/a.ts'', Some \<lparr>version = ''1'', signature = ''s'', affectsGlobalScope = False\<rparr>),
               (''https://x/m.ts'', Some \<lparr>version = ''2'', signature = ''t'', affectsGlobalScope = False\<rparr>)]"
proof -
  let ?g = "\<lparr>deps = [JStr ''file:///src/a.ts'', JStr ''https://x/m.ts'', JNum 3], version_hash = ''h''\<rparr>"
  let ?bi = "\<lparr>program = \<lparr>fileNames = Some [JStr ''file:///src/a.ts''],
            fileInfos = [(''file:///src/a.ts'', Some \<lparr>version = ''1'', signature = ''s'', affectsGlobalScope = False\<rparr>),
                         (''https://x/m.ts'', Some \<lparr>version = ''2'', signature = ''t'', affectsGlobalScope = False\<rparr>)],
            referencedMap = [(''file:///src/a.ts'', [JStr ''file:///src/b.ts''])],
            exportedModulesMap = [], semanticDiagnosticsPerFile = None\<rparr>,
         bi_version = ''4.4''\<rparr>"
  have safe: "roundTripSafe ''/src'' ''/t'' ''file:///src/a.ts''"
    "roundTripSafe ''/src'' ''/t'' ''file:///src/b.ts''"
    "roundTripSafe ''/src'' ''/t'' ''https://x/m.ts''"
    by (simp_all add: roundTripSafe_def startsWith_def workPathUri_def)
  have h1: "\<forall>s\<in>set (stringsOf (deps ?g)). roundTripSafe ''/src'' ''/t'' s"
    using safe by simp
  have h2: "\<forall>s\<in>set (examinedStrings (program ?bi)). roundTripSafe ''/src'' ''/t'' s"
    using safe by (simp add: examinedStrings_def optArray_def)
  have d: "distinct (map fst (fileInfos (program ?bi)))" "distinct (map fst (referencedMap (program ?bi)))"
    "distinct (map fst (exportedModulesMap (program ?bi)))"
    by simp_all
  have fwd: "fst (relocateGraph ''/src'' ''/t'' ?g None) =
       \<lparr>deps = [JStr ''file:///t/a.ts'', JStr ''https://x/m.ts'', JNum 3], version_hash = ''h''\<rparr>"
    by (simp add: relocateGraph_closed startsWith_def workPathUri_def updatedOf_def relativeOf_def substring_def)
  note rt = round_trip[OF h1 h2 d, of None None]
  from rt have 1: "graphRoundTrip ''/src'' ''/t'' ?g None None = ?g" by blast
  from rt have 2: "fileNames (program (buildInfoRoundTrip ''/src'' ''/t'' ?bi None None)) = Some [JStr ''file:///src/a.ts'']"
    by simp
  from rt have 3: "map_of (referencedMap (program (buildInfoRoundTrip ''/src'' ''/t'' ?bi None None))) =
      map_of [(''file:///src/a.ts'', [JStr ''file:///src/b.ts''])]"
    by simp
  from rt have 4: "map_of (fileInfos (program (buildInfoRoundTrip ''/src'' ''/t'' ?bi None None))) =
       map_of [(''file:///src/a.ts'', Some \<lparr>version = ''1'', signature = ''s'', affectsGlobalScope = False\<rparr>),
               (''https://x/m.ts'', Some \<lparr>version = ''2'', signature = ''t'', affectsGlobalScope = False\<rparr>)]"
    by simp
  from h1 h2 fwd 1 2 3 4 show ?thesis
    by (simp only: list_all_iff simp_thms)
qed

text \<open>
  C3. For each entry of \<open>referencedMap\<close> and \<open>exportedModulesMap\<close> the pass first
  rewrites the matching strings of the entry's list in place and then, independently,
  renames the key if it matches, storing the same list (the same reference) under the
  new key and deleting the old key. Over the whole map every list is rewritten element by
  element whatever happens to the keys, every list of the resulting map is such a
  rewritten list, and where the renamed keys collide with none an entry is found under
  its renamed key with its rewritten list. The flat lists \<open>fileNames\<close> and
  \<open>semanticDiagnosticsPerFile\<close> are rewritten element by element. An element-wise
  rewrite keeps length and order.
\<close>

theorem lists_rewritten_then_rekeyed:
  "fileNames (program (fst (relocateBuildInfo oldPath newPath bi sf))) =
     map_option (map (rewriteVal (workPathUri oldPath) newPath)) (fileNames (program bi))
   \<and> semanticDiagnosticsPerFile (program (fst (relocateBuildInfo oldPath newPath bi sf))) =
     map_option (map (rewriteVal (workPathUri oldPath) newPath)) (semanticDiagnosticsPerFile (program bi))
   \<and> referencedMap (program (fst (relocateBuildInfo oldPath newPath bi sf))) =
     fst (patchMap (workPathUri oldPath) newPath (referencedMap (program bi)) q)
   \<and> exportedModulesMap (program (fst (relocateBuildInfo oldPath newPath bi sf))) =
     fst (patchMap (workPathUri oldPath) newPath (exportedModulesMap (program bi)) q)
   \<and> fst (patchRefs uri newPath [(k, r)] obj heap q) =
     (if startsWith k uri
      then AList.delete k (AList.update (updatedOf newPath (relativeOf uri k)) r obj)
      else obj)
   \<and> fst (snd (patchRefs uri newPath [(k, r)] obj heap q)) =
     heap[r := map (rewriteVal uri newPath) (heap ! r)]
   \<and> fst (patchMap uri newPath al q) =
     deref (foldl (rekey uri newPath) (fst (alloc al)) (fst (alloc al)))
       (map (map (rewriteVal uri newPath)) (map snd al))
   \<and> snd ` set (fst (patchMap uri newPath al q)) \<subseteq> map (rewriteVal uri newPath) ` snd ` set al
   \<and> length (map (rewriteVal uri newPath) l) = length l
   \<and> (distinct (map fst al)
       \<and> inj_on (\<lambda>k. updatedOf newPath (relativeOf uri k)) {k \<in> fst ` set al. startsWith k uri}
       \<and> (\<lambda>k. updatedOf newPath (relativeOf uri k)) ` {k \<in> fst ` set al. startsWith k uri} \<inter> fst ` set al = {}
       \<and> (k, l) \<in> set al
       \<longrightarrow> map_of (fst (patchMap uri newPath al q)) (renamed uri newPath k) =
             Some (map (rewriteVal uri newPath) l))"
proof -
  have maps: "referencedMap (program (fst (relocateBuildInfo oldPath newPath bi sf))) =
       fst (patchMap (workPathUri oldPath) newPath (referencedMap (program bi)) q)"
    "exportedModulesMap (program (fst (relocateBuildInfo oldPath newPath bi sf))) =
       fst (patchMap (workPathUri oldPath) newPath (exportedModulesMap (program bi)) q)"
    unfolding relocateBuildInfo_maps by (rule patchMap_fst_indep)+
  have step: "fst (patchRefs uri newPath [(k, r)] obj heap q) =
     (if startsWith k uri
      then AList.delete k (AList.update (updatedOf newPath (relativeOf uri k)) r obj)
      else obj)"
    "fst (snd (patchRefs uri newPath [(k, r)] obj heap q)) =
     heap[r := map (rewriteVal uri newPath) (heap ! r)]"
    unfolding patchRefs_single by (simp_all add: rekey_def)
  have whole: "fst (patchMap uri newPath al q) =
     deref (foldl (rekey uri newPath) (fst (alloc al)) (fst (alloc al)))
       (map (map (rewriteVal uri newPath)) (map snd al))"
    by (simp add: patchMap_closed)
  have entry: "map_of (fst (patchMap uri newPath al q)) (renamed uri newPath k) =
             Some (map (rewriteVal uri newPath) l)"
    if "distinct (map fst al)"
      "inj_on (\<lambda>k. updatedOf newPath (relativeOf uri k)) {k \<in> fst ` set al. startsWith k uri}"
      "(\<lambda>k. updatedOf newPath (relativeOf uri k)) ` {k \<in> fst ` set al. startsWith k uri} \<inter> fst ` set al = {}"
      "(k, l) \<in> set al"
    using patchMap_entries(1)[OF that(1,2,3), of q] that(4) by blast
  show ?thesis
    using relocateBuildInfo_maps(4,5)[of oldPath newPath bi sf] maps step whole
      patchMap_lists[of uri newPath al q] entry
    by (simp only: length_map simp_thms) blast
qed

theorem lists_rewritten_then_rekeyed_witness:
  "distinct (map fst [(''file:///src/a.ts'', [JStr ''file:///src/b.ts'', JNull, JStr ''https://x/m.ts''])])
   \<and> startsWith ''file:///src/a.ts'' (workPathUri ''/src'')
   \<and> fst (patchMap (workPathUri ''/src'') ''/t''
        [(''file:///src/a.ts'', [JStr ''file:///src/b.ts'', JNull, JStr ''https://x/m.ts''])] (None, False)) =
       [(''file:///t/a.ts'', [JStr ''file:///t/b.ts'', JNull, JStr ''https://x/m.ts''])]
   \<and> map_of (fst (patchMap (workPathUri ''/src'') ''/t''
        [(''file:///src/a.ts'', [JStr ''file:///src/b.ts'', JNull, JStr ''https://x/m.ts''])] (None, False)))
        ''file:///t/a.ts'' = Some [JStr ''file:///t/b.ts'', JNull, JStr ''https://x/m.ts'']"
proof -
  let ?uri = "workPathUri ''/src''"
  let ?al = "[(''file:///src/a.ts'', [JStr ''file:///src/b.ts'', JNull, JStr ''https://x/m.ts''])]"
  have m: "startsWith ''file:///src/a.ts'' ?uri" "startsWith ''file:///src/b.ts'' ?uri"
    "\<not> startsWith ''https://x/m.ts'' ?uri"
    by (simp_all add: startsWith_def workPathUri_def)
  have u: "updatedOf ''/t'' (relativeOf ?uri ''file:///src/a.ts'') = ''file:///t/a.ts''"
    "updatedOf ''/t'' (relativeOf ?uri ''file:///src/b.ts'') = ''file:///t/b.ts''"
    by (simp_all add: updatedOf_def relativeOf_def substring_def workPathUri_def)
  have d: "distinct (map fst ?al)" by simp
  have i: "inj_on (\<lambda>k. updatedOf ''/t'' (relativeOf ?uri k)) {k \<in> fst ` set ?al. startsWith k ?uri}"
    by (auto simp: inj_on_def)
  have f: "(\<lambda>k. updatedOf ''/t'' (relativeOf ?uri k)) ` {k \<in> fst ` set ?al. startsWith k ?uri} \<inter> fst ` set ?al = {}"
    using u by auto
  have e: "(''file:///src/a.ts'', [JStr ''file:///src/b.ts'', JNull, JStr ''https://x/m.ts'']) \<in> set ?al"
    by simp
  have r: "renamed ?uri ''/t'' ''file:///src/a.ts'' = ''file:///t/a.ts''"
    using m u by (simp add: renamed_def)
  have rl: "map (rewriteVal ?uri ''/t'') [JStr ''file:///src/b.ts'', JNull, JStr ''https://x/m.ts''] =
      [JStr ''file:///t/b.ts'', JNull, JStr ''https://x/m.ts'']"
    using m u by simp
  have w: "fst (patchMap ?uri ''/t'' ?al (None, False)) =
       [(''file:///t/a.ts'', [JStr ''file:///t/b.ts'', JNull, JStr ''https://x/m.ts''])]"
    using m u by (simp add: patchMap_single)
  from lists_rewritten_then_rekeyed[where uri = ?uri and newPath = "''/t''" and al = ?al
      and k = "''file:///src/a.ts''" and l = "[JStr ''file:///src/b.ts'', JNull, JStr ''https://x/m.ts'']"
      and q = "(None, False)"] d i f e
  have "map_of (fst (patchMap ?uri ''/t'' ?al (None, False))) (renamed ?uri ''/t'' ''file:///src/a.ts'') =
      Some (map (rewriteVal ?uri ''/t'') [JStr ''file:///src/b.ts'', JNull, JStr ''https://x/m.ts''])"
    by blast
  with d m(1) w show ?thesis
    by (simp only: r rl simp_thms)
qed

end
